theory Spec2Isabelle
  imports Main "HOL-Library.Word" "HOL-Library.Signed_Division"
begin

unbundle bit_operations_syntax

section \<open>Sectors, the block device and the sector cache (filesys/cache.c)\<close>

text \<open>
  The source file holds \<^verbatim>\<open>cache.c\<close> twice: a first version whose \<^verbatim>\<open>fs_cache_read\<close> and
  \<^verbatim>\<open>fs_cache_write\<close> pass every call on to the device, and the version with the array
  of 64 entries and the clock hand that follows it and replaces it. The model is of the
  second one.

  A sector address is a \<^verbatim>\<open>block_sector_t\<close> (an unsigned 32-bit integer), a sector's
  content is a list of bytes (\<^verbatim>\<open>BLOCK_SECTOR_SIZE\<close> of them in every reachable state).
  The cache lock is taken and released around every operation; the model is sequential,
  so the lock does not appear.
\<close>

type_synonym block_sector_t = "32 word"
type_synonym uint8_t = "8 word"

definition BLOCK_SECTOR_SIZE :: nat where
  "BLOCK_SECTOR_SIZE = 512"

definition CACHE_SIZE :: nat where
  "CACHE_SIZE = 64"

record cache_entry_t =
  sector :: block_sector_t
  data :: "uint8_t list"
  access :: bool
  dirty :: bool
  free :: bool

text \<open>
  The state the cache works on: the static array \<^verbatim>\<open>cache\<close>, the static local
  \<^verbatim>\<open>clock\<close> of \<^verbatim>\<open>fs_cache_evict\<close>, and the block device \<^verbatim>\<open>fs_device\<close>.

  Modelled from the spec: the block device (devices/block.c) is not among the sources;
  \<^verbatim>\<open>block_read\<close> returns the sector's content and \<^verbatim>\<open>block_write\<close> replaces it
  by the buffer it is given (always the data array of a cache entry).
\<close>

record cache_state =
  cache :: "cache_entry_t list"
  clock :: nat
  fs_device :: "block_sector_t \<Rightarrow> uint8_t list"

definition block_read :: "'a cache_state_scheme \<Rightarrow> block_sector_t \<Rightarrow> uint8_t list" where
  "block_read st s = fs_device st s"

definition block_write :: "block_sector_t \<Rightarrow> uint8_t list \<Rightarrow> 'a cache_state_scheme \<Rightarrow> 'a cache_state_scheme" where
  "block_write s buf st = st\<lparr>fs_device := (fs_device st)(s := buf)\<rparr>"

text \<open>\<^verbatim>\<open>fs_cache_flush\<close>, on the entry at index \<open>i\<close> of the array.\<close>

definition fs_cache_flush :: "nat \<Rightarrow> 'a cache_state_scheme \<Rightarrow> 'a cache_state_scheme" where
  "fs_cache_flush i st =
     (let entry = cache st ! i in
      if dirty entry
      then (block_write (sector entry) (data entry) st)
             \<lparr>cache := (cache st)[i := entry\<lparr>dirty := False\<rparr>]\<rparr>
      else st)"

text \<open>
  \<^verbatim>\<open>fs_cache_find\<close>: the index of the first entry in use that holds the sector,
  \<open>None\<close> for the null pointer.
\<close>

fun fs_cache_find_from :: "nat \<Rightarrow> cache_entry_t list \<Rightarrow> block_sector_t \<Rightarrow> nat option" where
  "fs_cache_find_from i [] s = None"
| "fs_cache_find_from i (e # es) s =
     (if \<not> free e \<and> sector e = s then Some i else fs_cache_find_from (Suc i) es s)"

definition fs_cache_find :: "'a cache_state_scheme \<Rightarrow> block_sector_t \<Rightarrow> nat option" where
  "fs_cache_find st s = fs_cache_find_from 0 (take CACHE_SIZE (cache st)) s"

text \<open>
  The sweep of \<^verbatim>\<open>fs_cache_evict\<close>: the \<^verbatim>\<open>for (;;clock = (clock + 1) % CACHE_SIZE)\<close>
  loop. It stops on a free entry or on an entry whose access flag is clear; an entry
  whose access flag is set loses the flag and the hand moves on. The hand is only ever
  assigned \<^verbatim>\<open>(clock + 1) % CACHE_SIZE\<close>, so it stays inside the array; the model
  stops on a hand outside the array.
\<close>

function fs_cache_evict_sweep :: "'a cache_state_scheme \<Rightarrow> 'a cache_state_scheme" where
  "fs_cache_evict_sweep st =
     (if clock st < length (cache st) \<and> \<not> free (cache st ! clock st) \<and> access (cache st ! clock st)
      then fs_cache_evict_sweep
             (st\<lparr>cache := (cache st)[clock st := (cache st ! clock st)\<lparr>access := False\<rparr>],
                 clock := (clock st + 1) mod CACHE_SIZE\<rparr>)
      else st)"
  by pat_completeness auto

lemma access_count_decreases:
  "i < length xs \<Longrightarrow> access (xs ! i) \<Longrightarrow>
   length (filter access (xs[i := (xs ! i)\<lparr>access := False\<rparr>])) < length (filter access xs)"
proof (induction xs arbitrary: i)
  case Nil
  then show ?case by simp
next
  case (Cons x xs)
  show ?case
  proof (cases i)
    case 0
    with Cons.prems show ?thesis by simp
  next
    case (Suc j)
    with Cons.prems have "j < length xs" "access (xs ! j)" by simp_all
    from Cons.IH [OF this] Suc show ?thesis by simp
  qed
qed

termination fs_cache_evict_sweep
  by (relation "measure (\<lambda>st. length (filter access (cache st)))")
     (simp_all add: access_count_decreases)

text \<open>
  \<^verbatim>\<open>fs_cache_evict\<close> returns the entry it hands out (its index) and the new state:
  a free entry as it is, a victim after its write-back and with \<^verbatim>\<open>free\<close> set.
\<close>

definition fs_cache_evict :: "'a cache_state_scheme \<Rightarrow> nat \<times> 'a cache_state_scheme" where
  "fs_cache_evict st =
     (let st1 = fs_cache_evict_sweep st; i = clock st1 in
      if free (cache st1 ! i) then (i, st1)
      else
        let st2 = (if dirty (cache st1 ! i) then fs_cache_flush i st1 else st1) in
        (i, st2\<lparr>cache := (cache st2)[i := (cache st2 ! i)\<lparr>free := True\<rparr>]\<rparr>))"

definition fs_cache_init :: "'a cache_state_scheme \<Rightarrow> 'a cache_state_scheme" where
  "fs_cache_init st = st\<lparr>cache := map (\<lambda>e. e\<lparr>free := True\<rparr>) (cache st)\<rparr>"

text \<open>\<^verbatim>\<open>fs_cache_destroy\<close>: the loop over the array, flushing every entry in use.\<close>

fun fs_cache_destroy_from :: "nat \<Rightarrow> nat \<Rightarrow> 'a cache_state_scheme \<Rightarrow> 'a cache_state_scheme" where
  "fs_cache_destroy_from 0 i st = st"
| "fs_cache_destroy_from (Suc k) i st =
     fs_cache_destroy_from k (Suc i)
       (if \<not> free (cache st ! i) then fs_cache_flush i st else st)"

definition fs_cache_destroy :: "'a cache_state_scheme \<Rightarrow> 'a cache_state_scheme" where
  "fs_cache_destroy st = fs_cache_destroy_from CACHE_SIZE 0 st"

text \<open>
  The miss path shared by \<^verbatim>\<open>fs_cache_read\<close> and \<^verbatim>\<open>fs_cache_write\<close>: claim an
  entry, bind it to the sector and fill it from the device. Both then set the access
  flag; \<^verbatim>\<open>fs_cache_read\<close> copies the entry's data out, \<^verbatim>\<open>fs_cache_write\<close> copies the
  first \<^verbatim>\<open>BLOCK_SECTOR_SIZE\<close> bytes of the caller's buffer in and sets the dirty flag.
\<close>

definition fs_cache_load :: "block_sector_t \<Rightarrow> 'a cache_state_scheme \<Rightarrow> nat \<times> 'a cache_state_scheme" where
  "fs_cache_load s st =
     (let (i, st1) = fs_cache_evict st in
      (i, st1\<lparr>cache := (cache st1)[i := (cache st1 ! i)
                 \<lparr>free := False, sector := s, dirty := False, data := block_read st1 s\<rparr>]\<rparr>))"

definition fs_cache_read :: "block_sector_t \<Rightarrow> 'a cache_state_scheme \<Rightarrow> uint8_t list \<times> 'a cache_state_scheme" where
  "fs_cache_read s st =
     (let (i, st1) = (case fs_cache_find st s of Some i \<Rightarrow> (i, st) | None \<Rightarrow> fs_cache_load s st);
          st2 = st1\<lparr>cache := (cache st1)[i := (cache st1 ! i)\<lparr>access := True\<rparr>]\<rparr>
      in (data (cache st2 ! i), st2))"

definition fs_cache_write :: "block_sector_t \<Rightarrow> uint8_t list \<Rightarrow> 'a cache_state_scheme \<Rightarrow> 'a cache_state_scheme" where
  "fs_cache_write s buf st =
     (let (i, st1) = (case fs_cache_find st s of Some i \<Rightarrow> (i, st) | None \<Rightarrow> fs_cache_load s st)
      in st1\<lparr>cache := (cache st1)[i := (cache st1 ! i)
                \<lparr>access := True, dirty := True, data := take BLOCK_SECTOR_SIZE buf\<rparr>]\<rparr>)"

section \<open>The inode layer (filesys/inode.c)\<close>

subsection \<open>Machine integers and the layout of a sector\<close>

text \<open>
  \<^verbatim>\<open>off_t\<close> and \<^verbatim>\<open>int\<close> are signed 32-bit integers: 32-bit words read with \<open>sint\<close> and
  compared with \<open><s\<close>; arithmetic wraps, as the machine instructions do. C's \<^verbatim>\<open>/\<close> and
  \<^verbatim>\<open>%\<close> truncate towards zero. Counts of sectors (\<^verbatim>\<open>size_t\<close>) are natural numbers: they
  are at most \<open>2 ^ 32 - 1\<close> where they are computed and only get smaller afterwards.
\<close>

type_synonym off_t = "32 word"

definition c_div :: "32 word \<Rightarrow> 32 word \<Rightarrow> 32 word" where
  "c_div a b = word_of_int (sint a sdiv sint b)"

definition c_mod :: "32 word \<Rightarrow> 32 word \<Rightarrow> 32 word" where
  "c_mod a b = word_of_int (sint a smod sint b)"

definition DIV_ROUND_UP :: "nat \<Rightarrow> nat \<Rightarrow> nat" where
  "DIV_ROUND_UP x step = (x + step - 1) div step"

definition INODE_MAGIC :: "32 word" where
  "INODE_MAGIC = 0x494e4f44"

definition DIRECT_BLOCKS :: nat where
  "DIRECT_BLOCKS = 124"

definition INDIRECT_BLOCKS :: nat where
  "INDIRECT_BLOCKS = 128"

definition DOUBLE_INDIRECT_BLOCKS :: nat where
  "DOUBLE_INDIRECT_BLOCKS = INDIRECT_BLOCKS * INDIRECT_BLOCKS"

text \<open>
  A sector read into a struct, and a struct written to a sector: 32-bit fields in
  little-endian byte order, as on the i386 the kernel runs on.
\<close>

definition word_to_bytes :: "32 word \<Rightarrow> uint8_t list" where
  "word_to_bytes w = [ucast w, ucast (drop_bit 8 w), ucast (drop_bit 16 w), ucast (drop_bit 24 w)]"

definition bytes_to_word :: "uint8_t \<Rightarrow> uint8_t \<Rightarrow> uint8_t \<Rightarrow> uint8_t \<Rightarrow> 32 word" where
  "bytes_to_word b0 b1 b2 b3 =
     ucast b0 OR push_bit 8 (ucast b1) OR push_bit 16 (ucast b2) OR push_bit 24 (ucast b3)"

definition bytes_of_words :: "32 word list \<Rightarrow> uint8_t list" where
  "bytes_of_words ws = concat (map word_to_bytes ws)"

fun words_of_bytes :: "uint8_t list \<Rightarrow> 32 word list" where
  "words_of_bytes (b0 # b1 # b2 # b3 # bs) = bytes_to_word b0 b1 b2 b3 # words_of_bytes bs"
| "words_of_bytes bs = []"

definition zero_sector :: "uint8_t list" where
  "zero_sector = replicate BLOCK_SECTOR_SIZE 0"

record inode_disk =
  length' :: off_t
  magic :: "32 word"
  direct_blocks :: "block_sector_t list"
  indirect_block :: block_sector_t
  double_indirect_block :: block_sector_t

text \<open>\<^verbatim>\<open>struct inode_indirect_block\<close>: the array \<^verbatim>\<open>blocks\<close>.\<close>

type_synonym inode_indirect_block = "block_sector_t list"

definition sector_of_inode_disk :: "inode_disk \<Rightarrow> uint8_t list" where
  "sector_of_inode_disk d =
     bytes_of_words (length' d # magic d # direct_blocks d @ [indirect_block d, double_indirect_block d])"

definition inode_disk_of_sector :: "uint8_t list \<Rightarrow> inode_disk" where
  "inode_disk_of_sector buf =
     (let ws = words_of_bytes buf in
      \<lparr>length' = ws ! 0, magic = ws ! 1,
       direct_blocks = take DIRECT_BLOCKS (drop 2 ws),
       indirect_block = ws ! (2 + DIRECT_BLOCKS),
       double_indirect_block = ws ! (3 + DIRECT_BLOCKS)\<rparr>)"

definition indirect_block_of_sector :: "uint8_t list \<Rightarrow> inode_indirect_block" where
  "indirect_block_of_sector buf = take INDIRECT_BLOCKS (words_of_bytes buf)"

text \<open>
  \<^verbatim>\<open>bytes_to_sectors\<close>: \<^verbatim>\<open>DIV_ROUND_UP (size, BLOCK_SECTOR_SIZE)\<close> in \<^verbatim>\<open>off_t\<close> arithmetic,
  converted to \<^verbatim>\<open>size_t\<close>.
\<close>

definition bytes_to_sectors :: "off_t \<Rightarrow> nat" where
  "bytes_to_sectors sz = unat (c_div (sz + 512 - 1) 512)"

text \<open>\<^verbatim>\<open>calloc (1, sizeof *disk_inode)\<close>: every field zero.\<close>

definition calloc_inode_disk :: inode_disk where
  "calloc_inode_disk =
     \<lparr>length' = 0, magic = 0, direct_blocks = replicate DIRECT_BLOCKS 0,
      indirect_block = 0, double_indirect_block = 0\<rparr>"

subsection \<open>The file system state\<close>

text \<open>\<^verbatim>\<open>struct inode\<close>, the in-memory inode (its list element is its place in \<open>open_inodes\<close>).\<close>

record inode =
  sector' :: block_sector_t
  open_cnt :: int
  removed :: bool
  deny_write_cnt :: int
  data' :: inode_disk

text \<open>
  The state of the file system: the cache and the device, the free map, the list
  \<^verbatim>\<open>open_inodes\<close> and the kernel heap the in-memory inodes live in. An in-memory inode is
  named by its address; \<open>open_inodes\<close> holds each open inode with its address, the front of
  the list first.

  Modelled from the spec: the free-sector allocator (filesys/free-map.c) is not among the
  sources. \<^verbatim>\<open>free_map_allocate (1, &s)\<close> hands out one sector the allocator holds and
  stores it in \<open>s\<close>, or fails and leaves \<open>s\<close> as it is; \<^verbatim>\<open>free_map_release (s, 1)\<close> gives
  the sector back. \<open>free_sectors\<close> lists the sectors the allocator holds, in the order it
  hands them out.

  Modelled from the spec: \<^verbatim>\<open>malloc\<close> and \<^verbatim>\<open>free\<close> (threads/malloc.c) are not among the
  sources. \<open>heap_slots\<close> counts the in-memory inodes the heap still has room for;
  \<^verbatim>\<open>malloc\<close> returns the null pointer when it is zero, and an address no open inode has
  otherwise. The scratch buffers (\<^verbatim>\<open>calloc\<close> in \<^verbatim>\<open>inode_create\<close>, \<^verbatim>\<open>malloc\<close> of the
  bounce buffer) are a parameter \<open>mem\<close> of the operation: whether the allocation succeeds.
\<close>

record fs_state = cache_state +
  free_sectors :: "block_sector_t list"
  open_inodes :: "(nat \<times> inode) list"
  heap_slots :: nat

datatype error = PANIC | ASSERTION_FAILED | OUT_OF_BOUNDS | DANGLING_POINTER | INT_OVERFLOW

definition free_map_allocate :: "fs_state \<Rightarrow> block_sector_t option \<times> fs_state" where
  "free_map_allocate st =
     (case free_sectors st of
        [] \<Rightarrow> (None, st)
      | s # rest \<Rightarrow> (Some s, st\<lparr>free_sectors := rest\<rparr>))"

definition free_map_release :: "block_sector_t \<Rightarrow> fs_state \<Rightarrow> fs_state" where
  "free_map_release s st = st\<lparr>free_sectors := s # free_sectors st\<rparr>"

text \<open>
  \<^verbatim>\<open>free_map_allocate (1, entry); fs_cache_write (*entry, data);\<close> with the static
  all-zero \<^verbatim>\<open>data\<close>: the pair of statements every allocation site consists of. The
  result of \<^verbatim>\<open>free_map_allocate\<close> is not looked at: on failure the entry keeps its value
  and that sector is zeroed.
\<close>

definition allocate_zeroed :: "block_sector_t \<Rightarrow> fs_state \<Rightarrow> block_sector_t \<times> fs_state" where
  "allocate_zeroed entry st =
     (let (r, st1) = free_map_allocate st;
          entry1 = (case r of Some s \<Rightarrow> s | None \<Rightarrow> entry)
      in (entry1, fs_cache_write entry1 zero_sector st1))"


subsection \<open>The allocation engine\<close>

text \<open>
  The loop of \<^verbatim>\<open>inode_allocate_indirect\<close> over the entries of an indirection block;
  \<open>sub\<close> is the recursive call one level down. \<^verbatim>\<open>indir_block.blocks\<close> has
  \<^verbatim>\<open>INDIRECT_BLOCKS\<close> entries: an index past them is outside the array.
\<close>

function allocate_entries ::
  "(block_sector_t \<Rightarrow> nat \<Rightarrow> fs_state \<Rightarrow> error + block_sector_t \<times> fs_state) \<Rightarrow> nat \<Rightarrow> nat \<Rightarrow> nat \<Rightarrow> nat \<Rightarrow>
   inode_indirect_block \<Rightarrow> fs_state \<Rightarrow> error + inode_indirect_block \<times> fs_state" where
  "allocate_entries sub n i l nsectors blocks st =
     (if i < l then
        (if i < INDIRECT_BLOCKS then
           (case sub (blocks ! i) (min nsectors n) st of
              Inl e \<Rightarrow> Inl e
            | Inr (b, st1) \<Rightarrow>
                allocate_entries sub n (Suc i) l (nsectors - min nsectors n) (blocks[i := b]) st1)
         else Inl OUT_OF_BOUNDS)
      else Inr (blocks, st))"
  by pat_completeness auto
termination
  by (relation "measure (\<lambda>(sub, n, i, l, nsectors, blocks, st). l - i)") auto

fun inode_allocate_indirect ::
  "block_sector_t \<Rightarrow> nat \<Rightarrow> nat \<Rightarrow> fs_state \<Rightarrow> error + block_sector_t \<times> fs_state" where
  "inode_allocate_indirect entry nsectors 0 st = Inr (allocate_zeroed entry st)"
| "inode_allocate_indirect entry nsectors (Suc depth) st =
     (let (entry1, st1) = (if entry = 0 then allocate_zeroed entry st else (entry, st));
          (buf, st2) = fs_cache_read entry1 st1;
          n = (if Suc depth = 1 then 1 else INDIRECT_BLOCKS);
          l = DIV_ROUND_UP nsectors n
      in case allocate_entries (\<lambda>e k s. inode_allocate_indirect e k depth s) n 0 l nsectors
                (indirect_block_of_sector buf) st2 of
           Inl e \<Rightarrow> Inl e
         | Inr (blocks, st3) \<Rightarrow> Inr (entry1, fs_cache_write entry1 (bytes_of_words blocks) st3))"

text \<open>The loop of \<^verbatim>\<open>inode_allocate\<close> over \<^verbatim>\<open>direct_blocks\<close>.\<close>

function allocate_direct :: "nat \<Rightarrow> nat \<Rightarrow> inode_disk \<Rightarrow> fs_state \<Rightarrow> inode_disk \<times> fs_state" where
  "allocate_direct i l d st =
     (if i < l then
        (let (s, st1) = allocate_zeroed (direct_blocks d ! i) st
         in allocate_direct (Suc i) l (d\<lparr>direct_blocks := (direct_blocks d)[i := s]\<rparr>) st1)
      else (d, st))"
  by pat_completeness auto
termination
  by (relation "measure (\<lambda>(i, l, d, st). l - i)") auto

text \<open>
  \<^verbatim>\<open>inode_allocate\<close> returns its result and the inode it has filled in. Both calls of
  \<^verbatim>\<open>inode_allocate_indirect\<close> are on \<^verbatim>\<open>&disk_inode->indirect_block\<close> with depth 1, as in
  the source.
\<close>

definition inode_allocate :: "inode_disk \<Rightarrow> fs_state \<Rightarrow> error + bool \<times> inode_disk \<times> fs_state" where
  "inode_allocate d st =
     (if length' d <s 0 then Inr (False, d, st)
      else
        let nsectors = bytes_to_sectors (length' d);
            l = min nsectors DIRECT_BLOCKS;
            (d1, st1) = allocate_direct 0 l d st;
            nsectors1 = nsectors - l
        in if nsectors1 = 0 then Inr (True, d1, st1)
           else
             let l2 = min nsectors1 INDIRECT_BLOCKS in
             case inode_allocate_indirect (indirect_block d1) l2 1 st1 of
               Inl e \<Rightarrow> Inl e
             | Inr (e2, st2) \<Rightarrow>
                 let d2 = d1\<lparr>indirect_block := e2\<rparr>;
                     nsectors2 = nsectors1 - l2
                 in if nsectors2 = 0 then Inr (True, d2, st2)
                    else
                      let l3 = min nsectors2 DOUBLE_INDIRECT_BLOCKS in
                      case inode_allocate_indirect (indirect_block d2) l3 1 st2 of
                        Inl e \<Rightarrow> Inl e
                      | Inr (e3, st3) \<Rightarrow>
                          let d3 = d2\<lparr>indirect_block := e3\<rparr>;
                              nsectors3 = nsectors2 - l3
                          in if nsectors3 = 0 then Inr (True, d3, st3) else Inr (False, d3, st3))"

text \<open>The loop of \<^verbatim>\<open>inode_deallocate_indirect\<close> over the entries of an indirection block.\<close>

function deallocate_entries ::
  "(block_sector_t \<Rightarrow> nat \<Rightarrow> fs_state \<Rightarrow> error + fs_state) \<Rightarrow> nat \<Rightarrow> nat \<Rightarrow> nat \<Rightarrow> nat \<Rightarrow>
   inode_indirect_block \<Rightarrow> fs_state \<Rightarrow> error + fs_state" where
  "deallocate_entries sub n i l nsectors blocks st =
     (if i < l then
        (if i < INDIRECT_BLOCKS then
           (case sub (blocks ! i) (min nsectors n) st of
              Inl e \<Rightarrow> Inl e
            | Inr st1 \<Rightarrow> deallocate_entries sub n (Suc i) l (nsectors - min nsectors n) blocks st1)
         else Inl OUT_OF_BOUNDS)
      else Inr st)"
  by pat_completeness auto
termination
  by (relation "measure (\<lambda>(sub, n, i, l, nsectors, blocks, st). l - i)") auto

fun inode_deallocate_indirect :: "block_sector_t \<Rightarrow> nat \<Rightarrow> nat \<Rightarrow> fs_state \<Rightarrow> error + fs_state" where
  "inode_deallocate_indirect entry nsectors 0 st = Inr (free_map_release entry st)"
| "inode_deallocate_indirect entry nsectors (Suc depth) st =
     (let (buf, st1) = fs_cache_read entry st;
          n = (if Suc depth = 1 then 1 else INDIRECT_BLOCKS);
          l = DIV_ROUND_UP nsectors n
      in case deallocate_entries (\<lambda>e k s. inode_deallocate_indirect e k depth s) n 0 l nsectors
                (indirect_block_of_sector buf) st1 of
           Inl e \<Rightarrow> Inl e
         | Inr st2 \<Rightarrow> Inr (free_map_release entry st2))"

text \<open>The loop of \<^verbatim>\<open>inode_deallocate\<close> over \<^verbatim>\<open>direct_blocks\<close>.\<close>

function deallocate_direct :: "nat \<Rightarrow> nat \<Rightarrow> inode_disk \<Rightarrow> fs_state \<Rightarrow> fs_state" where
  "deallocate_direct i l d st =
     (if i < l then deallocate_direct (Suc i) l d (free_map_release (direct_blocks d ! i) st)
      else st)"
  by pat_completeness auto
termination
  by (relation "measure (\<lambda>(i, l, d, st). l - i)") auto

definition inode_deallocate :: "inode \<Rightarrow> fs_state \<Rightarrow> error + bool \<times> fs_state" where
  "inode_deallocate inode st =
     (if length' (data' inode) <s 0 then Inr (False, st)
      else
        let nsectors = bytes_to_sectors (length' (data' inode));
            l = min nsectors DIRECT_BLOCKS;
            st1 = deallocate_direct 0 l (data' inode) st;
            nsectors1 = nsectors - l;
            l2 = min nsectors1 INDIRECT_BLOCKS
        in case (if 0 < l2
                 then inode_deallocate_indirect (indirect_block (data' inode)) l2 1 st1
                 else Inr st1) of
             Inl e \<Rightarrow> Inl e
           | Inr st2 \<Rightarrow>
               let nsectors2 = (if 0 < l2 then nsectors1 - l2 else nsectors1);
                   l3 = min nsectors2 DOUBLE_INDIRECT_BLOCKS
               in case (if 0 < l3
                        then inode_deallocate_indirect (double_indirect_block (data' inode)) l3 2 st2
                        else Inr st2) of
                    Inl e \<Rightarrow> Inl e
                  | Inr st3 \<Rightarrow> Inr (True, st3))"


subsection \<open>The block map\<close>

text \<open>
  \<^verbatim>\<open>index_to_sector\<close>. A negative index passes the first test and reads before the
  array \<^verbatim>\<open>direct_blocks\<close>. The scratch block \<^verbatim>\<open>indir_block\<close> is used without looking
  at \<^verbatim>\<open>calloc\<close>'s result; the model takes that allocation to succeed.
\<close>

definition index_to_sector :: "inode_disk \<Rightarrow> off_t \<Rightarrow> fs_state \<Rightarrow> error + block_sector_t \<times> fs_state" where
  "index_to_sector disk index st =
     (if index <s of_nat DIRECT_BLOCKS then
        (if index <s 0 then Inl OUT_OF_BOUNDS else Inr (direct_blocks disk ! unat index, st))
      else if index <s of_nat (DIRECT_BLOCKS + INDIRECT_BLOCKS) then
        (let (buf, st1) = fs_cache_read (indirect_block disk) st
         in Inr (indirect_block_of_sector buf ! unat (index - of_nat DIRECT_BLOCKS), st1))
      else if index <s of_nat (DIRECT_BLOCKS + INDIRECT_BLOCKS + DOUBLE_INDIRECT_BLOCKS) then
        (let index_first = c_div (index - of_nat (DIRECT_BLOCKS + INDIRECT_BLOCKS)) (of_nat INDIRECT_BLOCKS);
             index_second = c_mod (index - of_nat (DIRECT_BLOCKS + INDIRECT_BLOCKS)) (of_nat INDIRECT_BLOCKS);
             (buf, st1) = fs_cache_read (double_indirect_block disk) st;
             (buf2, st2) = fs_cache_read (indirect_block_of_sector buf ! unat index_first) st1
         in Inr (indirect_block_of_sector buf2 ! unat index_second, st2))
      else Inr (- 1, st))"

definition byte_to_sector :: "inode \<Rightarrow> off_t \<Rightarrow> fs_state \<Rightarrow> error + block_sector_t \<times> fs_state" where
  "byte_to_sector inode pos st =
     (if 0 \<le>s pos \<and> pos <s length' (data' inode)
      then index_to_sector (data' inode) (c_div pos 512) st
      else Inr (- 1, st))"

definition inode_length :: "inode \<Rightarrow> off_t" where
  "inode_length inode = length' (data' inode)"

subsection \<open>The inode manager\<close>

text \<open>\<^verbatim>\<open>inode_init\<close>: \<^verbatim>\<open>list_init (&open_inodes)\<close>.\<close>

definition inode_init :: "fs_state \<Rightarrow> fs_state" where
  "inode_init st = st\<lparr>open_inodes := []\<rparr>"

definition inode_create :: "bool \<Rightarrow> block_sector_t \<Rightarrow> off_t \<Rightarrow> fs_state \<Rightarrow> error + bool \<times> fs_state" where
  "inode_create mem sec len st =
     (if \<not> 0 \<le>s len then Inl ASSERTION_FAILED
      else if \<not> mem then Inr (False, st)
      else
        case inode_allocate (calloc_inode_disk\<lparr>length' := len, magic := INODE_MAGIC\<rparr>) st of
          Inl e \<Rightarrow> Inl e
        | Inr (ok, disk_inode, st1) \<Rightarrow>
            if ok then Inr (True, fs_cache_write sec (sector_of_inode_disk disk_inode) st1)
            else Inr (False, st1))"

text \<open>The walk of \<^verbatim>\<open>inode_open\<close> through \<open>open_inodes\<close>: the first inode of the sector.\<close>

fun find_open :: "(nat \<times> inode) list \<Rightarrow> block_sector_t \<Rightarrow> nat option" where
  "find_open [] s = None"
| "find_open ((p, inode) # es) s = (if sector' inode = s then Some p else find_open es s)"

definition malloc_inode :: "fs_state \<Rightarrow> nat option \<times> fs_state" where
  "malloc_inode st =
     (if heap_slots st = 0 then (None, st)
      else (Some (Suc (fold max (map fst (open_inodes st)) 0)), st\<lparr>heap_slots := heap_slots st - 1\<rparr>))"

definition free_inode :: "fs_state \<Rightarrow> fs_state" where
  "free_inode st = st\<lparr>heap_slots := heap_slots st + 1\<rparr>"

definition INT_MAX :: int where
  "INT_MAX = 2147483647"

definition INT_MIN :: int where
  "INT_MIN = - 2147483648"

definition update_inode :: "nat \<Rightarrow> (inode \<Rightarrow> inode) \<Rightarrow> fs_state \<Rightarrow> fs_state" where
  "update_inode p f st =
     st\<lparr>open_inodes := map (\<lambda>(q, inode). if q = p then (q, f inode) else (q, inode)) (open_inodes st)\<rparr>"

text \<open>
  \<^verbatim>\<open>inode_reopen\<close>. A pointer is \<open>None\<close> when null; a pointer to no open inode is
  dangling, and the increment of an \<^verbatim>\<open>int\<close> at its largest value overflows.
\<close>

definition inode_reopen :: "nat option \<Rightarrow> fs_state \<Rightarrow> error + nat option \<times> fs_state" where
  "inode_reopen ptr st =
     (case ptr of
        None \<Rightarrow> Inr (None, st)
      | Some p \<Rightarrow>
          (case map_of (open_inodes st) p of
             None \<Rightarrow> Inl DANGLING_POINTER
           | Some inode \<Rightarrow>
               if open_cnt inode = INT_MAX then Inl INT_OVERFLOW
               else Inr (Some p, update_inode p (\<lambda>i. i\<lparr>open_cnt := open_cnt i + 1\<rparr>) st)))"

definition inode_open :: "block_sector_t \<Rightarrow> fs_state \<Rightarrow> error + nat option \<times> fs_state" where
  "inode_open sec st =
     (case find_open (open_inodes st) sec of
        Some p \<Rightarrow> inode_reopen (Some p) st
      | None \<Rightarrow>
          (case malloc_inode st of
             (None, st1) \<Rightarrow> Inr (None, st1)
           | (Some p, st1) \<Rightarrow>
               let (buf, st2) = fs_cache_read sec st1 in
               Inr (Some p,
                    st2\<lparr>open_inodes :=
                          (p, \<lparr>sector' = sec, open_cnt = 1, removed = False, deny_write_cnt = 0,
                               data' = inode_disk_of_sector buf\<rparr>) # open_inodes st2\<rparr>)))"

definition inode_get_inumber :: "inode \<Rightarrow> block_sector_t" where
  "inode_get_inumber inode = sector' inode"

definition inode_close :: "nat option \<Rightarrow> fs_state \<Rightarrow> error + fs_state" where
  "inode_close ptr st =
     (case ptr of
        None \<Rightarrow> Inr st
      | Some p \<Rightarrow>
          (case map_of (open_inodes st) p of
             None \<Rightarrow> Inl DANGLING_POINTER
           | Some inode \<Rightarrow>
               if open_cnt inode = INT_MIN then Inl INT_OVERFLOW
               else if open_cnt inode - 1 = 0 then
                 (let st1 = st\<lparr>open_inodes := filter (\<lambda>(q, i). q \<noteq> p) (open_inodes st)\<rparr> in
                  if removed inode then
                    (case inode_deallocate inode (free_map_release (sector' inode) st1) of
                       Inl e \<Rightarrow> Inl e
                     | Inr (ok, st2) \<Rightarrow> Inr (free_inode st2))
                  else Inr (free_inode st1))
               else Inr (update_inode p (\<lambda>i. i\<lparr>open_cnt := open_cnt i - 1\<rparr>) st)))"

definition inode_remove :: "nat option \<Rightarrow> fs_state \<Rightarrow> error + fs_state" where
  "inode_remove ptr st =
     (case ptr of
        None \<Rightarrow> Inl ASSERTION_FAILED
      | Some p \<Rightarrow>
          (case map_of (open_inodes st) p of
             None \<Rightarrow> Inl DANGLING_POINTER
           | Some inode \<Rightarrow> Inr (update_inode p (\<lambda>i. i\<lparr>removed := True\<rparr>) st)))"

definition inode_deny_write :: "nat \<Rightarrow> fs_state \<Rightarrow> error + fs_state" where
  "inode_deny_write p st =
     (case map_of (open_inodes st) p of
        None \<Rightarrow> Inl DANGLING_POINTER
      | Some inode \<Rightarrow>
          if deny_write_cnt inode = INT_MAX then Inl INT_OVERFLOW
          else if \<not> deny_write_cnt inode + 1 \<le> open_cnt inode then Inl ASSERTION_FAILED
          else Inr (update_inode p (\<lambda>i. i\<lparr>deny_write_cnt := deny_write_cnt i + 1\<rparr>) st))"

definition inode_allow_write :: "nat \<Rightarrow> fs_state \<Rightarrow> error + fs_state" where
  "inode_allow_write p st =
     (case map_of (open_inodes st) p of
        None \<Rightarrow> Inl DANGLING_POINTER
      | Some inode \<Rightarrow>
          if \<not> 0 < deny_write_cnt inode then Inl ASSERTION_FAILED
          else if \<not> deny_write_cnt inode \<le> open_cnt inode then Inl ASSERTION_FAILED
          else Inr (update_inode p (\<lambda>i. i\<lparr>deny_write_cnt := deny_write_cnt i - 1\<rparr>) st))"


subsection \<open>Reading and writing byte ranges\<close>

text \<open>
  \<^verbatim>\<open>memcpy (dst + pos, src, n)\<close> with \<open>n\<close> the length of \<open>src\<close>, for a destination that
  holds at least \<open>pos + n\<close> bytes (the caller's buffer holds \<^verbatim>\<open>size\<close> bytes, the bounce
  buffer a sector).
\<close>

definition copy_into :: "uint8_t list \<Rightarrow> nat \<Rightarrow> uint8_t list \<Rightarrow> uint8_t list" where
  "copy_into dst pos src = take pos dst @ src @ drop (pos + length src) dst"

lemma chunk_decreases:
  fixes sz c :: "32 word"
  assumes "0 <s sz" and "\<not> c \<le>s 0" and "c = (if sz <s m then sz else m)"
  shows "nat (sint (sz - c)) < nat (sint sz)"
proof -
  from assms have c: "0 < sint c" "sint c \<le> sint sz" "0 < sint sz"
    by (auto simp: word_sless_alt word_sle_eq split: if_splits)
  have "sint sz < 2 ^ 31" using sint_lt [of sz] by simp
  with c have "signed_take_bit 31 (sint sz - sint c) = sint sz - sint c"
    by (intro signed_take_bit_int_eq_self) simp_all
  then have "sint (sz - c) = sint sz - sint c"
    by (simp add: sint_word_ariths)
  with c show ?thesis by simp
qed

text \<open>
  The loop of \<^verbatim>\<open>inode_read_at\<close>; it returns \<^verbatim>\<open>bytes_read\<close> and the caller's buffer.
  \<open>mem\<close> says whether \<^verbatim>\<open>malloc\<close> of the bounce buffer succeeds. For a negative
  \<^verbatim>\<open>offset\<close> that is no multiple of the sector size, \<^verbatim>\<open>offset % BLOCK_SECTOR_SIZE\<close> is
  negative, and \<^verbatim>\<open>memcpy (buffer + bytes_read, bounce + sector_ofs, chunk_size)\<close> reads
  before the bounce buffer: that copy is outside the array.
\<close>

function inode_read_loop ::
  "inode \<Rightarrow> bool \<Rightarrow> uint8_t list \<Rightarrow> off_t \<Rightarrow> off_t \<Rightarrow> off_t \<Rightarrow> fs_state \<Rightarrow>
   error + (off_t \<times> uint8_t list) \<times> fs_state" where
  "inode_read_loop inode mem buffer sz offset bytes_read st =
     (if 0 <s sz then
        (case byte_to_sector inode offset st of
           Inl e \<Rightarrow> Inl e
         | Inr (sector_idx, st1) \<Rightarrow>
             let sector_ofs = c_mod offset 512;
                 inode_left = inode_length inode - offset;
                 sector_left = 512 - sector_ofs;
                 min_left = (if inode_left <s sector_left then inode_left else sector_left);
                 chunk_size = (if sz <s min_left then sz else min_left)
             in if chunk_size \<le>s 0 then Inr ((bytes_read, buffer), st1)
                else if sector_ofs = 0 \<and> chunk_size = 512 then
                  (let (buf, st2) = fs_cache_read sector_idx st1
                   in inode_read_loop inode mem (copy_into buffer (unat bytes_read) buf)
                        (sz - chunk_size) (offset + chunk_size) (bytes_read + chunk_size) st2)
                else if \<not> mem then Inr ((bytes_read, buffer), st1)
                else if sector_ofs <s 0 then Inl OUT_OF_BOUNDS
                else
                  (let (bounce, st2) = fs_cache_read sector_idx st1
                   in inode_read_loop inode mem
                        (copy_into buffer (unat bytes_read)
                           (take (unat chunk_size) (drop (unat sector_ofs) bounce)))
                        (sz - chunk_size) (offset + chunk_size) (bytes_read + chunk_size) st2))
      else Inr ((bytes_read, buffer), st))"
  by pat_completeness auto
termination
  apply (relation "measure (\<lambda>(inode, mem, buffer, sz, offset, bytes_read, st). nat (sint sz))")
    apply simp
   apply (simp only: in_measure prod.case)
   apply (rule chunk_decreases; (assumption | rule refl))
  apply (simp only: in_measure prod.case)
  apply (rule chunk_decreases; (assumption | rule refl))
  done

definition inode_read_at ::
  "inode \<Rightarrow> bool \<Rightarrow> uint8_t list \<Rightarrow> off_t \<Rightarrow> off_t \<Rightarrow> fs_state \<Rightarrow>
   error + (off_t \<times> uint8_t list) \<times> fs_state" where
  "inode_read_at inode mem buffer sz offset st = inode_read_loop inode mem buffer sz offset 0 st"

text \<open>
  The loop of \<^verbatim>\<open>inode_write_at\<close>; it returns \<^verbatim>\<open>bytes_written\<close>. With a negative
  \<^verbatim>\<open>sector_ofs\<close>, \<^verbatim>\<open>memcpy (bounce + sector_ofs, buffer + bytes_written, chunk_size)\<close>
  writes before the bounce buffer: that copy is outside the array.
\<close>

function inode_write_loop ::
  "inode \<Rightarrow> bool \<Rightarrow> uint8_t list \<Rightarrow> off_t \<Rightarrow> off_t \<Rightarrow> off_t \<Rightarrow> fs_state \<Rightarrow>
   error + off_t \<times> fs_state" where
  "inode_write_loop inode mem buffer sz offset bytes_written st =
     (if 0 <s sz then
        (case byte_to_sector inode offset st of
           Inl e \<Rightarrow> Inl e
         | Inr (sector_idx, st1) \<Rightarrow>
             let sector_ofs = c_mod offset 512;
                 inode_left = inode_length inode - offset;
                 sector_left = 512 - sector_ofs;
                 min_left = (if inode_left <s sector_left then inode_left else sector_left);
                 chunk_size = (if sz <s min_left then sz else min_left)
             in if chunk_size \<le>s 0 then Inr (bytes_written, st1)
                else if sector_ofs = 0 \<and> chunk_size = 512 then
                  inode_write_loop inode mem buffer
                    (sz - chunk_size) (offset + chunk_size) (bytes_written + chunk_size)
                    (fs_cache_write sector_idx (drop (unat bytes_written) buffer) st1)
                else if \<not> mem then Inr (bytes_written, st1)
                else if sector_ofs <s 0 then Inl OUT_OF_BOUNDS
                else
                  (let (bounce, st2) =
                         (if 0 <s sector_ofs \<or> chunk_size <s sector_left
                          then fs_cache_read sector_idx st1
                          else (zero_sector, st1))
                   in inode_write_loop inode mem buffer
                        (sz - chunk_size) (offset + chunk_size) (bytes_written + chunk_size)
                        (fs_cache_write sector_idx
                           (copy_into bounce (unat sector_ofs)
                              (take (unat chunk_size) (drop (unat bytes_written) buffer)))
                           st2)))
      else Inr (bytes_written, st))"
  by pat_completeness auto
termination
  apply (relation "measure (\<lambda>(inode, mem, buffer, sz, offset, bytes_written, st). nat (sint sz))")
    apply simp
   apply (simp only: in_measure prod.case)
   apply (rule chunk_decreases; (assumption | rule refl))
  apply (simp only: in_measure prod.case)
  apply (rule chunk_decreases; (assumption | rule refl))
  done

text \<open>
  \<^verbatim>\<open>inode_write_at\<close>: nothing is written while writes are denied, and a range whose
  last byte has no sector is the \<^verbatim>\<open>PANIC\<close>.
\<close>

definition inode_write_at ::
  "inode \<Rightarrow> bool \<Rightarrow> uint8_t list \<Rightarrow> off_t \<Rightarrow> off_t \<Rightarrow> fs_state \<Rightarrow> error + off_t \<times> fs_state" where
  "inode_write_at inode mem buffer sz offset st =
     (if deny_write_cnt inode \<noteq> 0 then Inr (0, st)
      else
        case byte_to_sector inode (offset + sz - 1) st of
          Inl e \<Rightarrow> Inl e
        | Inr (s, st1) \<Rightarrow>
            if s = - 1 then Inl PANIC
            else inode_write_loop inode mem buffer sz offset 0 st1)"

section \<open>Specification-level definitions\<close>

text \<open>
  The invariant of the cache: the array has \<^verbatim>\<open>CACHE_SIZE\<close> entries and the hand is
  inside it, no two entries in use hold the same sector, and an entry in use that is
  not dirty holds what the device holds at its sector.
\<close>

definition cache_wf :: "'a cache_state_scheme \<Rightarrow> bool" where
  "cache_wf st \<longleftrightarrow>
     length (cache st) = CACHE_SIZE \<and> clock st < CACHE_SIZE \<and>
     (\<forall>i<CACHE_SIZE. \<forall>j<CACHE_SIZE.
        \<not> free (cache st ! i) \<and> \<not> free (cache st ! j) \<and>
        sector (cache st ! i) = sector (cache st ! j) \<longrightarrow> i = j) \<and>
     (\<forall>i<CACHE_SIZE. \<not> free (cache st ! i) \<and> \<not> dirty (cache st ! i) \<longrightarrow>
        data (cache st ! i) = fs_device st (sector (cache st ! i)))"

text \<open>
  The content of a sector as the callers of the cache see it: the data of the entry
  that holds the sector, and the device's content when no entry does.
\<close>

definition cache_content :: "'a cache_state_scheme \<Rightarrow> block_sector_t \<Rightarrow> uint8_t list" where
  "cache_content st s =
     (case fs_cache_find st s of Some i \<Rightarrow> data (cache st ! i) | None \<Rightarrow> fs_device st s)"

text \<open>Two states that differ in access flags and the hand only.\<close>

definition same_lines :: "'a cache_state_scheme \<Rightarrow> 'a cache_state_scheme \<Rightarrow> bool" where
  "same_lines st st' \<longleftrightarrow>
     length (cache st') = length (cache st) \<and> fs_device st' = fs_device st \<and>
     cache_state.more st' = cache_state.more st \<and>
     (\<forall>j. free (cache st' ! j) = free (cache st ! j) \<and> sector (cache st' ! j) = sector (cache st ! j) \<and>
          data (cache st' ! j) = data (cache st ! j) \<and> dirty (cache st' ! j) = dirty (cache st ! j))"

definition sweep_more :: "'a cache_state_scheme \<Rightarrow> bool" where
  "sweep_more st \<longleftrightarrow>
     clock st < length (cache st) \<and> \<not> free (cache st ! clock st) \<and> access (cache st ! clock st)"

definition sweep_step :: "'a cache_state_scheme \<Rightarrow> 'a cache_state_scheme" where
  "sweep_step st = st\<lparr>cache := (cache st)[clock st := (cache st ! clock st)\<lparr>access := False\<rparr>],
                      clock := (clock st + 1) mod CACHE_SIZE\<rparr>"

text \<open>Replacing one entry of the array.\<close>

definition set_line :: "nat \<Rightarrow> cache_entry_t \<Rightarrow> 'a cache_state_scheme \<Rightarrow> 'a cache_state_scheme" where
  "set_line i e st = st\<lparr>cache := (cache st)[i := e]\<rparr>"

text \<open>The entry both operations work on: the one found, or the one loaded.\<close>

definition fs_cache_get :: "block_sector_t \<Rightarrow> 'a cache_state_scheme \<Rightarrow> nat \<times> 'a cache_state_scheme" where
  "fs_cache_get s st = (case fs_cache_find st s of Some i \<Rightarrow> (i, st) | None \<Rightarrow> fs_cache_load s st)"

text \<open>
  A sequence of calls of \<^verbatim>\<open>fs_cache_read\<close> and \<^verbatim>\<open>fs_cache_write\<close>, run from a state,
  and the buffer the sequence writes last to a sector.
\<close>

datatype cache_op = Read block_sector_t | Write block_sector_t "uint8_t list"

fun cache_step :: "cache_op \<Rightarrow> 'a cache_state_scheme \<Rightarrow> 'a cache_state_scheme" where
  "cache_step (Read s) st = snd (fs_cache_read s st)"
| "cache_step (Write s buf) st = fs_cache_write s buf st"

fun run_cache_ops :: "cache_op list \<Rightarrow> 'a cache_state_scheme \<Rightarrow> 'a cache_state_scheme" where
  "run_cache_ops [] st = st"
| "run_cache_ops (op # ops) st = run_cache_ops ops (cache_step op st)"

fun writes_to :: "block_sector_t \<Rightarrow> cache_op \<Rightarrow> bool" where
  "writes_to s (Read s') = False"
| "writes_to s (Write s' buf) = (s' = s)"

fun last_write :: "cache_op list \<Rightarrow> block_sector_t \<Rightarrow> uint8_t list option" where
  "last_write [] s = None"
| "last_write (op # ops) s =
     (case last_write ops s of
        Some buf \<Rightarrow> Some buf
      | None \<Rightarrow> (case op of Write s' buf \<Rightarrow> if s' = s then Some buf else None | Read s' \<Rightarrow> None))"

text \<open>The static array \<^verbatim>\<open>cache\<close> as the loader leaves it: every field zero.\<close>

definition static_cache :: "cache_entry_t list" where
  "static_cache = replicate CACHE_SIZE
     \<lparr>sector = 0, data = replicate BLOCK_SECTOR_SIZE 0, access = False, dirty = False, free = False\<rparr>"

text \<open>
  A cache over a blank device in which every entry is in use (entry \<open>k\<close> holds sector
  \<open>k\<close>) and has been accessed since the hand last passed it.
\<close>

definition full_cache_state :: cache_state where
  "full_cache_state =
     \<lparr>cache = map (\<lambda>k. \<lparr>sector = of_nat k, data = replicate 512 0, access = True,
                          dirty = False, free = False\<rparr>) [0..<CACHE_SIZE],
      clock = 0, fs_device = (\<lambda>_. replicate 512 0)\<rparr>"

text \<open>
  A cache over a blank device whose first entry holds sector 5, modified and not yet
  written back; the other entries are free.
\<close>

definition dirty_cache_state :: cache_state where
  "dirty_cache_state =
     \<lparr>cache = \<lparr>sector = 5, data = replicate 512 7, access = False, dirty = True, free = False\<rparr> #
              replicate 63 \<lparr>sector = 0, data = replicate 512 0, access = False, dirty = False, free = True\<rparr>,
      clock = 0, fs_device = (\<lambda>_. replicate 512 0)\<rparr>"

text \<open>Flushing every entry in use.\<close>

definition clean_upto :: "nat \<Rightarrow> 'a cache_state_scheme \<Rightarrow> bool" where
  "clean_upto n st \<longleftrightarrow> (\<forall>j<n. free (cache st ! j) \<or> \<not> dirty (cache st ! j))"

text \<open>
  The block map as the specification words it (section 4.2, \<open>translate\<close>), on a
  zero-based logical index, for the comparison with \<^verbatim>\<open>index_to_sector\<close>.
\<close>

definition translate_spec :: "inode_disk \<Rightarrow> nat \<Rightarrow> fs_state \<Rightarrow> block_sector_t \<times> fs_state" where
  "translate_spec rec logical_index st =
     (if logical_index < 124 then (direct_blocks rec ! logical_index, st)
      else if logical_index < 124 + 128 then
        (let (blk, st1) = fs_cache_read (indirect_block rec) st
         in (indirect_block_of_sector blk ! (logical_index - 124), st1))
      else if logical_index < 124 + 128 + 128 * 128 then
        (let k = logical_index - 252;
             (blk, st1) = fs_cache_read (double_indirect_block rec) st;
             (blk2, st2) = fs_cache_read (indirect_block_of_sector blk ! (k div 128)) st1
         in (indirect_block_of_sector blk2 ! (k mod 128), st2))
      else (- 1, st))"

text \<open>An open inode of a file of one sector, whose data is in sector 2.\<close>

definition one_sector_inode :: inode where
  "one_sector_inode =
     \<lparr>sector' = 1, open_cnt = 1, removed = False, deny_write_cnt = 0,
      data' = calloc_inode_disk\<lparr>length' := 512, magic := INODE_MAGIC,
                direct_blocks := (replicate DIRECT_BLOCKS 0)[0 := 2]\<rparr>\<rparr>"

subsection \<open>The registry of open inodes\<close>

text \<open>
  The registry is well-formed for a count \<open>cnt\<close> of opens not yet closed, per sector:
  no two entries share an address, no two entries share a sector, every entry's
  \<^verbatim>\<open>open_cnt\<close> is the count of its sector and is positive, and a sector without an
  entry has the count zero.
\<close>

definition registry_ok :: "(block_sector_t \<Rightarrow> int) \<Rightarrow> fs_state \<Rightarrow> bool" where
  "registry_ok cnt st \<longleftrightarrow>
     distinct (map fst (open_inodes st)) \<and>
     distinct (map (\<lambda>(p, i). sector' i) (open_inodes st)) \<and>
     list_all (\<lambda>(p, i). open_cnt i = cnt (sector' i) \<and> 0 < open_cnt i) (open_inodes st) \<and>
     (\<forall>s. s \<notin> set (map (\<lambda>(p, i). sector' i) (open_inodes st)) \<longrightarrow> cnt s = 0)"

text \<open>
  A sequence of opens and closes, run from a state; \<open>cnt\<close> counts, per sector, the opens
  that returned a handle minus the closes of a handle of that sector.
\<close>

datatype inode_op = Open block_sector_t | Close nat

fun inode_step ::
  "inode_op \<Rightarrow> (block_sector_t \<Rightarrow> int) \<times> fs_state \<Rightarrow> error + (block_sector_t \<Rightarrow> int) \<times> fs_state" where
  "inode_step (Open s) (cnt, st) =
     (case inode_open s st of
        Inl e \<Rightarrow> Inl e
      | Inr (None, st') \<Rightarrow> Inr (cnt, st')
      | Inr (Some p, st') \<Rightarrow> Inr (cnt(s := cnt s + 1), st'))"
| "inode_step (Close p) (cnt, st) =
     (case map_of (open_inodes st) p of
        None \<Rightarrow> Inl DANGLING_POINTER
      | Some inode \<Rightarrow>
          (case inode_close (Some p) st of
             Inl e \<Rightarrow> Inl e
           | Inr st' \<Rightarrow> Inr (cnt(sector' inode := cnt (sector' inode) - 1), st')))"

fun run_inode_ops ::
  "inode_op list \<Rightarrow> (block_sector_t \<Rightarrow> int) \<times> fs_state \<Rightarrow> error + (block_sector_t \<Rightarrow> int) \<times> fs_state" where
  "run_inode_ops [] c = Inr c"
| "run_inode_ops (op # ops) c =
     (case inode_step op c of Inl e \<Rightarrow> Inl e | Inr c' \<Rightarrow> run_inode_ops ops c')"

text \<open>
  The state after boot, \<^verbatim>\<open>fs_cache_init\<close> and \<^verbatim>\<open>inode_init\<close>, on a blank device of which
  the allocator holds the sectors 2 to 299, with room for 16 in-memory inodes.
\<close>

definition init_state :: fs_state where
  "init_state =
     fs_cache_init
       \<lparr>cache = static_cache, clock = 0, fs_device = (\<lambda>_. zero_sector),
        free_sectors = map of_nat [2..<300], open_inodes = [], heap_slots = 16\<rparr>"

text \<open>The same inode while writes are denied.\<close>

definition denied_inode :: inode where
  "denied_inode = one_sector_inode\<lparr>deny_write_cnt := 1\<rparr>"

text \<open>The inode record of a file of one sector whose data is in sector \<open>s\<close>.\<close>

definition one_sector_disk :: "block_sector_t \<Rightarrow> inode_disk" where
  "one_sector_disk s =
     calloc_inode_disk\<lparr>length' := 512, magic := INODE_MAGIC,
                        direct_blocks := (replicate DIRECT_BLOCKS 0)[0 := s]\<rparr>"

text \<open>
  The sectors an allocation of \<open>n \<le> 252\<close> data sectors takes from the allocator: the
  data sectors, and the indirect block when the direct entries do not suffice.
\<close>

definition sectors_needed :: "nat \<Rightarrow> nat" where
  "sectors_needed n = (if n \<le> DIRECT_BLOCKS then n else Suc n)"

text \<open>A device that has been in use: every byte of every sector is \<open>0xAA\<close>.\<close>

definition stale_sector :: "uint8_t list" where
  "stale_sector = replicate BLOCK_SECTOR_SIZE 0xAA"

text \<open>
  The state after boot on such a device, of which the allocator holds the sectors 2 to
  299, with room for 16 in-memory inodes.
\<close>

definition stale_state :: fs_state where
  "stale_state =
     inode_init (fs_cache_init
       \<lparr>cache = static_cache, clock = 0, fs_device = (\<lambda>_. stale_sector),
        free_sectors = map of_nat [2..<300], open_inodes = [], heap_slots = 16\<rparr>)"

section \<open>Properties\<close>

lemma fs_cache_find_from_Some:
  "fs_cache_find_from k es s = Some j \<Longrightarrow>
   k \<le> j \<and> j < k + length es \<and> \<not> free (es ! (j - k)) \<and> sector (es ! (j - k)) = s \<and>
   (\<forall>m<j - k. free (es ! m) \<or> sector (es ! m) \<noteq> s)"
proof (induction k es s rule: fs_cache_find_from.induct)
  case (1 i s)
  then show ?case by simp
next
  case (2 i e es s)
  show ?case
  proof (cases "\<not> free e \<and> sector e = s")
    case True
    with "2.prems" show ?thesis by auto
  next
    case False
    with "2.prems" have r: "fs_cache_find_from (Suc i) es s = Some j" by auto
    from "2.IH" [OF False r] have ih: "Suc i \<le> j" "j < Suc i + length es"
      "\<not> free (es ! (j - Suc i))" "sector (es ! (j - Suc i)) = s"
      "\<forall>m<j - Suc i. free (es ! m) \<or> sector (es ! m) \<noteq> s" by auto
    from ih(1) have e: "j - i = Suc (j - Suc i)" by simp
    have "\<forall>m<j - i. free ((e # es) ! m) \<or> sector ((e # es) ! m) \<noteq> s"
    proof (intro allI impI)
      fix m assume "m < j - i"
      then show "free ((e # es) ! m) \<or> sector ((e # es) ! m) \<noteq> s"
        using False ih(5) e by (cases m) auto
    qed
    with ih e show ?thesis by auto
  qed
qed

lemma fs_cache_find_from_None:
  "fs_cache_find_from k es s = None \<longleftrightarrow> (\<forall>m<length es. free (es ! m) \<or> sector (es ! m) \<noteq> s)"
proof (induction k es s rule: fs_cache_find_from.induct)
  case (1 i s)
  then show ?case by simp
next
  case (2 i e es s)
  show ?case
  proof (cases "\<not> free e \<and> sector e = s")
    case True
    then show ?thesis by auto
  next
    case False
    have "(\<forall>m<length (e # es). free ((e # es) ! m) \<or> sector ((e # es) ! m) \<noteq> s)
          \<longleftrightarrow> (\<forall>m<length es. free (es ! m) \<or> sector (es ! m) \<noteq> s)"
      using False by (auto simp: less_Suc_eq_0_disj)
    with "2.IH" [OF False] False show ?thesis by auto
  qed
qed

lemma fs_cache_find_Some:
  assumes "fs_cache_find st s = Some i" "length (cache st) = CACHE_SIZE"
  shows "i < CACHE_SIZE \<and> \<not> free (cache st ! i) \<and> sector (cache st ! i) = s"
  using fs_cache_find_from_Some [of 0 "take CACHE_SIZE (cache st)" s i] assms
  by (simp add: fs_cache_find_def)

lemma fs_cache_find_None:
  assumes "length (cache st) = CACHE_SIZE"
  shows "fs_cache_find st s = None \<longleftrightarrow>
         (\<forall>i<CACHE_SIZE. free (cache st ! i) \<or> sector (cache st ! i) \<noteq> s)"
  using fs_cache_find_from_None [of 0 "take CACHE_SIZE (cache st)" s] assms
  by (simp add: fs_cache_find_def)

lemma fs_cache_find_unique:
  assumes wf: "cache_wf st" and i: "i < CACHE_SIZE" "\<not> free (cache st ! i)"
  shows "fs_cache_find st (sector (cache st ! i)) = Some i"
proof (cases "fs_cache_find st (sector (cache st ! i))")
  case None
  with wf i show ?thesis by (auto simp: fs_cache_find_None cache_wf_def)
next
  case (Some j)
  from fs_cache_find_Some [OF Some] wf
  have "j < CACHE_SIZE" "\<not> free (cache st ! j)" "sector (cache st ! j) = sector (cache st ! i)"
    by (auto simp: cache_wf_def)
  with wf i have "j = i" unfolding cache_wf_def by blast
  with Some show ?thesis by simp
qed

lemma cache_content_hit:
  "cache_wf st \<Longrightarrow> i < CACHE_SIZE \<Longrightarrow> \<not> free (cache st ! i) \<Longrightarrow>
   cache_content st (sector (cache st ! i)) = data (cache st ! i)"
  by (simp add: cache_content_def fs_cache_find_unique)

lemma cache_content_miss:
  "length (cache st) = CACHE_SIZE \<Longrightarrow>
   \<forall>i<CACHE_SIZE. free (cache st ! i) \<or> sector (cache st ! i) \<noteq> s \<Longrightarrow>
   cache_content st s = fs_device st s"
  by (simp add: cache_content_def fs_cache_find_None [THEN iffD2])

declare fs_cache_evict_sweep.simps [simp del]

lemma same_lines_refl: "same_lines st st"
  by (simp add: same_lines_def)

lemma same_lines_trans: "same_lines a b \<Longrightarrow> same_lines b c \<Longrightarrow> same_lines a c"
  by (simp add: same_lines_def)

lemma same_lines_step:
  "i < length (cache st) \<Longrightarrow>
   same_lines st (st\<lparr>cache := (cache st)[i := (cache st ! i)\<lparr>access := b\<rparr>], clock := c\<rparr>)"
  by (simp add: same_lines_def nth_list_update)

lemma sweep_unfold:
  "fs_cache_evict_sweep st = (if sweep_more st then fs_cache_evict_sweep (sweep_step st) else st)"
  by (subst fs_cache_evict_sweep.simps) (simp add: sweep_more_def sweep_step_def)

lemma sweep_induct:
  assumes "\<And>st. (sweep_more st \<Longrightarrow> P (sweep_step st)) \<Longrightarrow> P st"
  shows "P st"
proof (induction st rule: fs_cache_evict_sweep.induct)
  case (1 st)
  show ?case
    by (rule assms) (use "1.IH" in \<open>simp add: sweep_more_def sweep_step_def\<close>)
qed

lemma sweep_same_lines: "same_lines st (fs_cache_evict_sweep st)"
proof (induction st rule: sweep_induct)
  case (1 st)
  show ?case
  proof (cases "sweep_more st")
    case True
    then have "same_lines st (sweep_step st)"
      unfolding sweep_step_def sweep_more_def by (intro same_lines_step) simp
    from same_lines_trans [OF this "1.IH" [OF True]] True show ?thesis
      by (simp add: sweep_unfold [of st])
  next
    case False
    then show ?thesis by (simp add: sweep_unfold [of st] same_lines_refl)
  qed
qed

lemma sweep_clock: "clock st < CACHE_SIZE \<Longrightarrow> clock (fs_cache_evict_sweep st) < CACHE_SIZE"
proof (induction st rule: sweep_induct)
  case (1 st)
  show ?case
  proof (cases "sweep_more st")
    case True
    have "clock (fs_cache_evict_sweep (sweep_step st)) < CACHE_SIZE"
      by (rule "1.IH" [OF True]) (simp add: CACHE_SIZE_def sweep_step_def)
    with True show ?thesis by (simp add: sweep_unfold [of st])
  next
    case False
    with "1.prems" show ?thesis by (simp add: sweep_unfold [of st])
  qed
qed

lemma sweep_stops: "\<not> sweep_more (fs_cache_evict_sweep st)"
proof (induction st rule: sweep_induct)
  case (1 st)
  show ?case
  proof (cases "sweep_more st")
    case True
    with "1.IH" show ?thesis by (simp add: sweep_unfold [of st])
  next
    case False
    then show ?thesis by (simp add: sweep_unfold [of st])
  qed
qed

lemma same_lines_find_from:
  "length xs = length ys \<Longrightarrow>
   \<forall>j<length xs. free (xs ! j) = free (ys ! j) \<and> sector (xs ! j) = sector (ys ! j) \<Longrightarrow>
   fs_cache_find_from k xs s = fs_cache_find_from k ys s"
proof (induction xs ys arbitrary: k rule: list_induct2)
  case Nil
  then show ?case by simp
next
  case (Cons x xs y ys)
  from Cons.prems have h: "free x = free y" "sector x = sector y" by auto
  from Cons.prems have "\<forall>j<length xs. free (xs ! j) = free (ys ! j) \<and> sector (xs ! j) = sector (ys ! j)"
    by auto
  from Cons.IH [OF this] h show ?case by simp
qed

lemma same_lines_find: "same_lines st st' \<Longrightarrow> fs_cache_find st' s = fs_cache_find st s"
  unfolding fs_cache_find_def
  by (rule same_lines_find_from) (simp_all add: same_lines_def)

lemma same_lines_content:
  assumes "same_lines st st'"
  shows "cache_content st' s = cache_content st s"
proof -
  have "fs_cache_find st' s = fs_cache_find st s"
    using assms by (rule same_lines_find)
  then show ?thesis
    using assms by (simp add: cache_content_def same_lines_def split: option.splits)
qed

lemma same_lines_wf:
  "same_lines st st' \<Longrightarrow> clock st' < CACHE_SIZE \<Longrightarrow> cache_wf st \<Longrightarrow> cache_wf st'"
  by (simp add: cache_wf_def same_lines_def)

lemma cache_content_cases:
  assumes "cache_wf st"
  obtains (hit) i where "i < CACHE_SIZE" "\<not> free (cache st ! i)" "sector (cache st ! i) = s"
      "cache_content st s = data (cache st ! i)"
  | (miss) "\<forall>i<CACHE_SIZE. free (cache st ! i) \<or> sector (cache st ! i) \<noteq> s"
      "cache_content st s = fs_device st s"
proof (cases "\<exists>i<CACHE_SIZE. \<not> free (cache st ! i) \<and> sector (cache st ! i) = s")
  case True
  then obtain i where i: "i < CACHE_SIZE" "\<not> free (cache st ! i)" "sector (cache st ! i) = s" by blast
  with cache_content_hit [OF assms i(1,2)] show ?thesis by (intro hit [of i]) simp_all
next
  case False
  then have m: "\<forall>i<CACHE_SIZE. free (cache st ! i) \<or> sector (cache st ! i) \<noteq> s" by blast
  from assms have "length (cache st) = CACHE_SIZE" by (simp add: cache_wf_def)
  from cache_content_miss [OF this m] m show ?thesis by (rule miss [rotated])
qed

text \<open>Writing a dirty entry back.\<close>

lemma flush_wf:
  assumes wf: "cache_wf st" and i: "i < CACHE_SIZE" "\<not> free (cache st ! i)"
  shows "cache_wf (fs_cache_flush i st)"
proof (cases "dirty (cache st ! i)")
  case False
  with wf show ?thesis by (simp add: fs_cache_flush_def)
next
  case True
  from wf have len: "length (cache st) = CACHE_SIZE" by (simp add: cache_wf_def)
  from wf have uniq: "\<And>a b. a < CACHE_SIZE \<Longrightarrow> b < CACHE_SIZE \<Longrightarrow> \<not> free (cache st ! a) \<Longrightarrow>
      \<not> free (cache st ! b) \<Longrightarrow> sector (cache st ! a) = sector (cache st ! b) \<Longrightarrow> a = b"
    unfolding cache_wf_def by blast
  from wf have coh: "\<And>a. a < CACHE_SIZE \<Longrightarrow> \<not> free (cache st ! a) \<Longrightarrow> \<not> dirty (cache st ! a) \<Longrightarrow>
      data (cache st ! a) = fs_device st (sector (cache st ! a))"
    unfolding cache_wf_def by blast
  show ?thesis
    unfolding cache_wf_def
  proof (intro conjI allI impI)
    show "length (cache (fs_cache_flush i st)) = CACHE_SIZE"
      using len by (simp add: fs_cache_flush_def Let_def block_write_def)
    show "clock (fs_cache_flush i st) < CACHE_SIZE"
      using wf by (simp add: fs_cache_flush_def Let_def block_write_def cache_wf_def)
  next
    fix a b
    assume "a < CACHE_SIZE" "b < CACHE_SIZE"
      "\<not> free (cache (fs_cache_flush i st) ! a) \<and> \<not> free (cache (fs_cache_flush i st) ! b) \<and>
       sector (cache (fs_cache_flush i st) ! a) = sector (cache (fs_cache_flush i st) ! b)"
    then show "a = b"
      using uniq [of a b] len i
      by (simp add: fs_cache_flush_def Let_def block_write_def nth_list_update split: if_splits)
  next
    fix a
    assume a: "a < CACHE_SIZE"
      "\<not> free (cache (fs_cache_flush i st) ! a) \<and> \<not> dirty (cache (fs_cache_flush i st) ! a)"
    show "data (cache (fs_cache_flush i st) ! a) =
          fs_device (fs_cache_flush i st) (sector (cache (fs_cache_flush i st) ! a))"
    proof (cases "a = i")
      case True
      with \<open>dirty (cache st ! i)\<close> len i show ?thesis
        by (simp add: fs_cache_flush_def Let_def block_write_def)
    next
      case False
      with a True len i have *: "\<not> free (cache st ! a)" "\<not> dirty (cache st ! a)"
        by (simp_all add: fs_cache_flush_def Let_def block_write_def)
      with uniq [of a i] a(1) i False have "sector (cache st ! a) \<noteq> sector (cache st ! i)" by auto
      with coh [OF a(1) *] False True show ?thesis
        by (simp add: fs_cache_flush_def Let_def block_write_def)
    qed
  qed
qed

lemma flush_lines:
  assumes "i < length (cache st)"
  shows "length (cache (fs_cache_flush i st)) = length (cache st)"
    and "clock (fs_cache_flush i st) = clock st"
    and "cache_state.more (fs_cache_flush i st) = cache_state.more st"
    and "free (cache (fs_cache_flush i st) ! j) = free (cache st ! j)"
    and "sector (cache (fs_cache_flush i st) ! j) = sector (cache st ! j)"
    and "data (cache (fs_cache_flush i st) ! j) = data (cache st ! j)"
    and "access (cache (fs_cache_flush i st) ! j) = access (cache st ! j)"
    and "dirty (cache (fs_cache_flush i st) ! j) = (dirty (cache st ! j) \<and> j \<noteq> i)"
  using assms by (auto simp: fs_cache_flush_def Let_def block_write_def nth_list_update)

lemma flush_device:
  "fs_device (fs_cache_flush i st) =
     (if dirty (cache st ! i) then (fs_device st)(sector (cache st ! i) := data (cache st ! i))
      else fs_device st)"
  by (simp add: fs_cache_flush_def Let_def block_write_def)

lemma flush_content:
  assumes wf: "cache_wf st" and i: "i < CACHE_SIZE" "\<not> free (cache st ! i)"
  shows "cache_content (fs_cache_flush i st) s = cache_content st s"
proof -
  from wf have len: "length (cache st) = CACHE_SIZE" by (simp add: cache_wf_def)
  then have il: "i < length (cache st)" using i by simp
  note wf' = flush_wf [OF wf i]
  from wf show ?thesis
  proof (cases rule: cache_content_cases [where s = s])
    case (hit j)
    from hit have "\<not> free (cache (fs_cache_flush i st) ! j)"
      "sector (cache (fs_cache_flush i st) ! j) = s"
      by (simp_all add: flush_lines [OF il])
    with cache_content_hit [OF wf' hit(1)] hit show ?thesis
      by (simp add: flush_lines [OF il])
  next
    case miss
    from miss i have ne: "sector (cache st ! i) \<noteq> s" by auto
    have "cache_content (fs_cache_flush i st) s = fs_device (fs_cache_flush i st) s"
      using miss len by (intro cache_content_miss) (simp_all add: flush_lines [OF il])
    with ne miss show ?thesis by (simp add: flush_device)
  qed
qed

lemma set_line_simps:
  "length (cache (set_line i e st)) = length (cache st)"
  "clock (set_line i e st) = clock st"
  "fs_device (set_line i e st) = fs_device st"
  "cache_state.more (set_line i e st) = cache_state.more st"
  "i < length (cache st) \<Longrightarrow> cache (set_line i e st) ! j = (if j = i then e else cache st ! j)"
  by (auto simp: set_line_def nth_list_update)

text \<open>Giving up a clean entry in use.\<close>

lemma release_wf:
  assumes wf: "cache_wf st" and i: "i < CACHE_SIZE"
  shows "cache_wf (set_line i ((cache st ! i)\<lparr>free := True\<rparr>) st)"
proof -
  from wf i have il: "i < length (cache st)" by (simp add: cache_wf_def)
  from wf have len: "length (cache st) = CACHE_SIZE" by (simp add: cache_wf_def)
  have nth: "\<And>j. cache (set_line i ((cache st ! i)\<lparr>free := True\<rparr>) st) ! j =
      (if j = i then (cache st ! i)\<lparr>free := True\<rparr> else cache st ! j)"
    using il by (simp add: set_line_simps)
  from wf show ?thesis
    unfolding cache_wf_def nth by (simp add: set_line_simps)
qed

lemma release_content:
  assumes wf: "cache_wf st" and i: "i < CACHE_SIZE" "free (cache st ! i) \<or> \<not> dirty (cache st ! i)"
  shows "cache_content (set_line i ((cache st ! i)\<lparr>free := True\<rparr>) st) s = cache_content st s"
proof -
  let ?st' = "set_line i ((cache st ! i)\<lparr>free := True\<rparr>) st"
  from wf i have il: "i < length (cache st)" by (simp add: cache_wf_def)
  from wf have len: "length (cache ?st') = CACHE_SIZE" by (simp add: set_line_simps cache_wf_def)
  note wf' = release_wf [OF wf i(1)]
  have nth: "\<And>j. cache ?st' ! j = (if j = i then (cache st ! i)\<lparr>free := True\<rparr> else cache st ! j)"
    using il by (simp add: set_line_simps)
  from wf show ?thesis
  proof (cases rule: cache_content_cases [where s = s])
    case (hit j)
    show ?thesis
    proof (cases "j = i")
      case True
      from wf have u: "\<And>b. b < CACHE_SIZE \<Longrightarrow> \<not> free (cache st ! b) \<Longrightarrow>
          sector (cache st ! b) = sector (cache st ! i) \<Longrightarrow> b = i"
        using hit(1,2) True unfolding cache_wf_def by blast
      have "\<forall>k<CACHE_SIZE. free (cache ?st' ! k) \<or> sector (cache ?st' ! k) \<noteq> s"
      proof (intro allI impI)
        fix k assume k: "k < CACHE_SIZE"
        show "free (cache ?st' ! k) \<or> sector (cache ?st' ! k) \<noteq> s"
        proof (cases "k = i")
          case True
          then show ?thesis unfolding nth by simp
        next
          case False
          with u [OF k] hit(3) \<open>j = i\<close> show ?thesis unfolding nth by auto
        qed
      qed
      from cache_content_miss [OF len this] have "cache_content ?st' s = fs_device st s"
        by (simp add: set_line_simps)
      moreover from wf hit True i have "data (cache st ! i) = fs_device st s"
        unfolding cache_wf_def by auto
      ultimately show ?thesis using hit True by simp
    next
      case False
      with hit have "\<not> free (cache ?st' ! j)" "sector (cache ?st' ! j) = s"
        "data (cache ?st' ! j) = data (cache st ! j)"
        unfolding nth by simp_all
      with cache_content_hit [OF wf' hit(1)] hit show ?thesis by simp
    qed
  next
    case miss
    then have "\<forall>k<CACHE_SIZE. free (cache ?st' ! k) \<or> sector (cache ?st' ! k) \<noteq> s"
      unfolding nth by auto
    from cache_content_miss [OF len this] miss show ?thesis by (simp add: set_line_simps)
  qed
qed

text \<open>\<^verbatim>\<open>fs_cache_evict\<close>: the entry handed out is free, and nothing is lost.\<close>

lemma evict_eq:
  "fs_cache_evict st =
     (let st1 = fs_cache_evict_sweep st; i = clock st1 in
      if free (cache st1 ! i) then (i, st1)
      else (i, set_line i ((cache (fs_cache_flush i st1) ! i)\<lparr>free := True\<rparr>) (fs_cache_flush i st1)))"
  by (simp add: fs_cache_evict_def Let_def set_line_def fs_cache_flush_def)

lemma evict_props:
  assumes wf: "cache_wf st" and ev: "fs_cache_evict st = (i, st')"
  shows "i < CACHE_SIZE" and "free (cache st' ! i)" and "cache_wf st'"
    and "cache_content st' s = cache_content st s"
    and "cache_state.more st' = cache_state.more st"
    and "fs_cache_find st s = None \<Longrightarrow> fs_cache_find st' s = None"
proof -
  let ?st1 = "fs_cache_evict_sweep st"
  let ?st2 = "fs_cache_flush i ?st1"
  have sl: "same_lines st ?st1" by (rule sweep_same_lines)
  from wf have ck: "clock ?st1 < CACHE_SIZE" by (intro sweep_clock) (simp add: cache_wf_def)
  from same_lines_wf [OF sl ck wf] have wf1: "cache_wf ?st1" .
  from ev have i: "i = clock ?st1" by (auto simp: evict_eq Let_def split: if_splits)
  with ck show i_lt: "i < CACHE_SIZE" by simp
  from wf1 have len1: "length (cache ?st1) = CACHE_SIZE" by (simp add: cache_wf_def)
  with i_lt have il1: "i < length (cache ?st1)" by simp
  have c1: "cache_content ?st1 s = cache_content st s" using sl by (rule same_lines_content)
  have m1: "cache_state.more ?st1 = cache_state.more st" using sl by (simp add: same_lines_def)
  have f1: "fs_cache_find ?st1 s = fs_cache_find st s" using sl by (rule same_lines_find)
  have goal: "free (cache st' ! i) \<and> cache_wf st' \<and> cache_content st' s = cache_content st s \<and>
      cache_state.more st' = cache_state.more st \<and>
      (fs_cache_find st s = None \<longrightarrow> fs_cache_find st' s = None)"
  proof (cases "free (cache ?st1 ! i)")
    case True
    with ev i have "st' = ?st1" by (simp add: evict_eq Let_def)
    with True wf1 c1 m1 f1 show ?thesis by simp
  next
    case False
    with ev i have st': "st' = set_line i ((cache ?st2 ! i)\<lparr>free := True\<rparr>) ?st2"
      by (simp add: evict_eq Let_def)
    have wf2: "cache_wf ?st2" using wf1 i_lt False by (rule flush_wf)
    have il2: "i < length (cache ?st2)" using il1 by (simp add: flush_lines)
    have cl2: "\<not> dirty (cache ?st2 ! i)" using il1 by (simp add: flush_lines)
    have c2: "cache_content ?st2 s = cache_content ?st1 s" using wf1 i_lt False by (rule flush_content)
    have nth: "\<And>k. cache st' ! k = (if k = i then (cache ?st2 ! i)\<lparr>free := True\<rparr> else cache ?st2 ! k)"
      unfolding st' using il2 by (simp add: set_line_simps)
    have "fs_cache_find st s = None \<longrightarrow> fs_cache_find st' s = None"
    proof
      assume "fs_cache_find st s = None"
      with f1 len1 have "\<forall>k<CACHE_SIZE. free (cache ?st1 ! k) \<or> sector (cache ?st1 ! k) \<noteq> s"
        by (simp add: fs_cache_find_None)
      then have "\<forall>k<CACHE_SIZE. free (cache st' ! k) \<or> sector (cache st' ! k) \<noteq> s"
        unfolding nth by (simp add: flush_lines [OF il1])
      moreover have "length (cache st') = CACHE_SIZE"
        unfolding st' using len1 by (simp add: set_line_simps flush_lines [OF il1])
      ultimately show "fs_cache_find st' s = None" by (simp add: fs_cache_find_None)
    qed
    moreover have "free (cache st' ! i)" unfolding nth by simp
    moreover have "cache_wf st'" unfolding st' using wf2 i_lt by (rule release_wf)
    moreover have "cache_content st' s = cache_content st s"
      unfolding st' using release_content [OF wf2 i_lt, of s] cl2 c2 c1 by simp
    moreover have "cache_state.more st' = cache_state.more st"
      unfolding st' using m1 by (simp add: set_line_simps flush_lines [OF il1])
    ultimately show ?thesis by simp
  qed
  then show "free (cache st' ! i)" "cache_wf st'" "cache_content st' s = cache_content st s"
    "cache_state.more st' = cache_state.more st"
    "fs_cache_find st s = None \<Longrightarrow> fs_cache_find st' s = None"
    by simp_all
qed

text \<open>Binding a free entry to a sector that no entry holds, filled from the device.\<close>

lemma bind_props:
  assumes wf: "cache_wf st" and i: "i < CACHE_SIZE" "free (cache st ! i)"
    and none: "fs_cache_find st s = None"
    and st': "st' = set_line i ((cache st ! i)\<lparr>free := False, sector := s, dirty := False,
                                 data := fs_device st s\<rparr>) st"
  shows "cache_wf st'" and "fs_cache_find st' s = Some i"
    and "cache_content st' x = cache_content st x"
proof -
  from wf have len: "length (cache st) = CACHE_SIZE" by (simp add: cache_wf_def)
  with i have il: "i < length (cache st)" by simp
  have nth: "\<And>k. cache st' ! k = (if k = i then (cache st ! i)\<lparr>free := False, sector := s,
      dirty := False, data := fs_device st s\<rparr> else cache st ! k)"
    unfolding st' using il by (simp add: set_line_simps)
  have len': "length (cache st') = CACHE_SIZE" unfolding st' using len by (simp add: set_line_simps)
  have dev: "fs_device st' = fs_device st" unfolding st' by (simp add: set_line_simps)
  from none len have no: "\<And>k. k < CACHE_SIZE \<Longrightarrow> free (cache st ! k) \<or> sector (cache st ! k) \<noteq> s"
    by (simp add: fs_cache_find_None)
  from wf have uniq: "\<And>a b. a < CACHE_SIZE \<Longrightarrow> b < CACHE_SIZE \<Longrightarrow> \<not> free (cache st ! a) \<Longrightarrow>
      \<not> free (cache st ! b) \<Longrightarrow> sector (cache st ! a) = sector (cache st ! b) \<Longrightarrow> a = b"
    unfolding cache_wf_def by blast
  from wf have coh: "\<And>a. a < CACHE_SIZE \<Longrightarrow> \<not> free (cache st ! a) \<Longrightarrow> \<not> dirty (cache st ! a) \<Longrightarrow>
      data (cache st ! a) = fs_device st (sector (cache st ! a))"
    unfolding cache_wf_def by blast
  show wf': "cache_wf st'"
    unfolding cache_wf_def
  proof (intro conjI allI impI)
    show "length (cache st') = CACHE_SIZE" by (rule len')
    show "clock st' < CACHE_SIZE" unfolding st' using wf by (simp add: set_line_simps cache_wf_def)
  next
    fix a b
    assume ab: "a < CACHE_SIZE" "b < CACHE_SIZE"
      "\<not> free (cache st' ! a) \<and> \<not> free (cache st' ! b) \<and> sector (cache st' ! a) = sector (cache st' ! b)"
    show "a = b"
    proof (cases "a = i")
      case True
      with ab no [OF ab(2)] show ?thesis unfolding nth by (auto split: if_splits)
    next
      case a: False
      show ?thesis
      proof (cases "b = i")
        case True
        with ab no [OF ab(1)] a show ?thesis unfolding nth by (auto split: if_splits)
      next
        case False
        with a ab uniq [OF ab(1,2)] show ?thesis unfolding nth by simp
      qed
    qed
  next
    fix a
    assume "a < CACHE_SIZE" "\<not> free (cache st' ! a) \<and> \<not> dirty (cache st' ! a)"
    then show "data (cache st' ! a) = fs_device st' (sector (cache st' ! a))"
      using coh [of a] unfolding nth dev by (simp split: if_splits)
  qed
  have hit: "\<not> free (cache st' ! i)" "sector (cache st' ! i) = s" unfolding nth by simp_all
  from fs_cache_find_unique [OF wf' i(1) hit(1)] hit(2) show "fs_cache_find st' s = Some i" by simp
  from wf show "cache_content st' x = cache_content st x"
  proof (cases rule: cache_content_cases [where s = x])
    case (hit j)
    with i have "j \<noteq> i" by auto
    with hit have "\<not> free (cache st' ! j)" "sector (cache st' ! j) = x"
      "data (cache st' ! j) = data (cache st ! j)" unfolding nth by simp_all
    with cache_content_hit [OF wf' hit(1)] hit show ?thesis by simp
  next
    case miss
    show ?thesis
    proof (cases "x = s")
      case True
      with cache_content_hit [OF wf' i(1)] \<open>\<not> free (cache st' ! i)\<close> \<open>sector (cache st' ! i) = s\<close>
      have "cache_content st' x = data (cache st' ! i)" by simp
      with miss True show ?thesis unfolding nth by simp
    next
      case False
      with miss have "\<forall>k<CACHE_SIZE. free (cache st' ! k) \<or> sector (cache st' ! k) \<noteq> x"
        unfolding nth by simp
      from cache_content_miss [OF len' this] miss dev show ?thesis by simp
    qed
  qed
qed

lemma load_props:
  assumes wf: "cache_wf st" and none: "fs_cache_find st s = None"
    and ld: "fs_cache_load s st = (i, st')"
  shows "i < CACHE_SIZE" and "cache_wf st'" and "fs_cache_find st' s = Some i"
    and "cache_content st' x = cache_content st x"
    and "cache_state.more st' = cache_state.more st"
proof -
  obtain st1 where ev: "fs_cache_evict st = (i, st1)"
    and st': "st' = set_line i ((cache st1 ! i)\<lparr>free := False, sector := s, dirty := False,
                                  data := fs_device st1 s\<rparr>) st1"
    using ld by (auto simp: fs_cache_load_def set_line_def block_read_def split: prod.splits)
  note e = evict_props [OF wf ev]
  show "i < CACHE_SIZE" by (rule e(1))
  note b = bind_props [OF e(3) e(1) e(2) e(6) [OF none] st']
  show "cache_wf st'" by (rule b(1))
  show "fs_cache_find st' s = Some i" by (rule b(2))
  show "cache_content st' x = cache_content st x" using b(3) [of x] e(4) [of x] by simp
  show "cache_state.more st' = cache_state.more st" using e(5) unfolding st' by (simp add: set_line_simps)
qed

lemma get_props:
  assumes wf: "cache_wf st" and g: "fs_cache_get s st = (i, st')"
  shows "i < CACHE_SIZE" and "cache_wf st'" and "\<not> free (cache st' ! i)" and "sector (cache st' ! i) = s"
    and "cache_content st' x = cache_content st x"
    and "cache_state.more st' = cache_state.more st"
proof -
  from wf have len: "length (cache st) = CACHE_SIZE" by (simp add: cache_wf_def)
  have "i < CACHE_SIZE \<and> cache_wf st' \<and> fs_cache_find st' s = Some i \<and>
        cache_content st' x = cache_content st x \<and> cache_state.more st' = cache_state.more st"
  proof (cases "fs_cache_find st s")
    case None
    with g have "fs_cache_load s st = (i, st')" by (simp add: fs_cache_get_def)
    from load_props [OF wf None this] show ?thesis by simp
  next
    case (Some j)
    with g have "j = i" "st' = st" by (simp_all add: fs_cache_get_def)
    with Some fs_cache_find_Some [OF Some len] wf show ?thesis by simp
  qed
  then have r: "i < CACHE_SIZE" "cache_wf st'" "fs_cache_find st' s = Some i"
    "cache_content st' x = cache_content st x" "cache_state.more st' = cache_state.more st"
    by simp_all
  from r(2) have "length (cache st') = CACHE_SIZE" by (simp add: cache_wf_def)
  from fs_cache_find_Some [OF r(3) this] r
  show "i < CACHE_SIZE" "cache_wf st'" "\<not> free (cache st' ! i)" "sector (cache st' ! i) = s"
    "cache_content st' x = cache_content st x" "cache_state.more st' = cache_state.more st"
    by simp_all
qed

lemma read_eq:
  "fs_cache_read s st =
     (let (i, st1) = fs_cache_get s st;
          st2 = set_line i ((cache st1 ! i)\<lparr>access := True\<rparr>) st1
      in (data (cache st2 ! i), st2))"
  by (simp add: fs_cache_read_def fs_cache_get_def set_line_def)

lemma write_eq:
  "fs_cache_write s buf st =
     (let (i, st1) = fs_cache_get s st
      in set_line i ((cache st1 ! i)\<lparr>access := True, dirty := True,
                                      data := take BLOCK_SECTOR_SIZE buf\<rparr>) st1)"
  by (simp add: fs_cache_write_def fs_cache_get_def set_line_def)

lemma touch_same_lines:
  "i < length (cache st) \<Longrightarrow> same_lines st (set_line i ((cache st ! i)\<lparr>access := b\<rparr>) st)"
  by (simp add: same_lines_def set_line_def nth_list_update)

theorem fs_cache_read_props:
  assumes wf: "cache_wf st" and rd: "fs_cache_read s st = (d, st')"
  shows "d = cache_content st s" and "cache_wf st'" and "cache_content st' x = cache_content st x"
    and "cache_state.more st' = cache_state.more st"
proof -
  obtain i st1 where g: "fs_cache_get s st = (i, st1)" by (cases "fs_cache_get s st")
  note p = get_props [OF wf g]
  from p(2) p(1) have il: "i < length (cache st1)" by (simp add: cache_wf_def)
  from rd g have st': "st' = set_line i ((cache st1 ! i)\<lparr>access := True\<rparr>) st1"
    and d: "d = data (cache st' ! i)"
    by (auto simp: read_eq Let_def)
  have sl: "same_lines st1 st'" unfolding st' using il by (rule touch_same_lines)
  have ck: "clock st' < CACHE_SIZE" unfolding st' using p(2) by (simp add: set_line_simps cache_wf_def)
  show "cache_wf st'" using sl ck p(2) by (rule same_lines_wf)
  show "cache_content st' x = cache_content st x"
    using same_lines_content [OF sl, of x] p(5) [of x] by simp
  show "cache_state.more st' = cache_state.more st" using sl p(6) by (simp add: same_lines_def)
  from sl have "data (cache st' ! i) = data (cache st1 ! i)" by (simp add: same_lines_def)
  with d cache_content_hit [OF p(2) p(1) p(3)] p(4) p(5) [of s] show "d = cache_content st s" by simp
qed

theorem fs_cache_write_props:
  assumes wf: "cache_wf st"
  shows "cache_wf (fs_cache_write s buf st)"
    and "cache_content (fs_cache_write s buf st) x =
           (if x = s then take BLOCK_SECTOR_SIZE buf else cache_content st x)"
    and "cache_state.more (fs_cache_write s buf st) = cache_state.more st"
proof -
  let ?st' = "fs_cache_write s buf st"
  obtain i st1 where g: "fs_cache_get s st = (i, st1)" by (cases "fs_cache_get s st")
  note p = get_props [OF wf g]
  from p(2) have len: "length (cache st1) = CACHE_SIZE" by (simp add: cache_wf_def)
  with p(1) have il: "i < length (cache st1)" by simp
  from g have st': "?st' = set_line i ((cache st1 ! i)\<lparr>access := True, dirty := True,
      data := take BLOCK_SECTOR_SIZE buf\<rparr>) st1"
    by (simp add: write_eq)
  have nth: "\<And>k. cache ?st' ! k = (if k = i then (cache st1 ! i)\<lparr>access := True, dirty := True,
      data := take BLOCK_SECTOR_SIZE buf\<rparr> else cache st1 ! k)"
    unfolding st' using il by (simp add: set_line_simps)
  have len': "length (cache ?st') = CACHE_SIZE" unfolding st' using len by (simp add: set_line_simps)
  have dev: "fs_device ?st' = fs_device st1" unfolding st' by (simp add: set_line_simps)
  show "cache_state.more ?st' = cache_state.more st" unfolding st' using p(6) by (simp add: set_line_simps)
  from p(2) have uniq: "\<And>a b. a < CACHE_SIZE \<Longrightarrow> b < CACHE_SIZE \<Longrightarrow> \<not> free (cache st1 ! a) \<Longrightarrow>
      \<not> free (cache st1 ! b) \<Longrightarrow> sector (cache st1 ! a) = sector (cache st1 ! b) \<Longrightarrow> a = b"
    unfolding cache_wf_def by blast
  from p(2) have coh: "\<And>a. a < CACHE_SIZE \<Longrightarrow> \<not> free (cache st1 ! a) \<Longrightarrow> \<not> dirty (cache st1 ! a) \<Longrightarrow>
      data (cache st1 ! a) = fs_device st1 (sector (cache st1 ! a))"
    unfolding cache_wf_def by blast
  show wf': "cache_wf ?st'"
    unfolding cache_wf_def
  proof (intro conjI allI impI)
    show "length (cache ?st') = CACHE_SIZE" by (rule len')
    show "clock ?st' < CACHE_SIZE" unfolding st' using p(2) by (simp add: set_line_simps cache_wf_def)
  next
    fix a b
    assume ab: "a < CACHE_SIZE" "b < CACHE_SIZE"
      "\<not> free (cache ?st' ! a) \<and> \<not> free (cache ?st' ! b) \<and> sector (cache ?st' ! a) = sector (cache ?st' ! b)"
    have fs: "\<And>k. free (cache ?st' ! k) = free (cache st1 ! k)"
      "\<And>k. sector (cache ?st' ! k) = sector (cache st1 ! k)"
      unfolding nth by simp_all
    from ab uniq [OF ab(1,2)] show "a = b" unfolding fs by simp
  next
    fix a
    assume "a < CACHE_SIZE" "\<not> free (cache ?st' ! a) \<and> \<not> dirty (cache ?st' ! a)"
    then show "data (cache ?st' ! a) = fs_device ?st' (sector (cache ?st' ! a))"
      using coh [of a] unfolding nth dev by (simp split: if_splits)
  qed
  have c: "cache_content ?st' x = (if x = s then take BLOCK_SECTOR_SIZE buf else cache_content st1 x)"
  proof (cases "x = s")
    case True
    have "\<not> free (cache ?st' ! i)" "sector (cache ?st' ! i) = s"
      "data (cache ?st' ! i) = take BLOCK_SECTOR_SIZE buf"
      unfolding nth using p(3,4) by simp_all
    with cache_content_hit [OF wf' p(1)] True show ?thesis by simp
  next
    case False
    from p(2) show ?thesis
    proof (cases rule: cache_content_cases [where s = x])
      case (hit j)
      with False p(4) have "j \<noteq> i" by auto
      with hit have "\<not> free (cache ?st' ! j)" "sector (cache ?st' ! j) = x"
        "data (cache ?st' ! j) = data (cache st1 ! j)" unfolding nth by simp_all
      with cache_content_hit [OF wf' hit(1)] hit False show ?thesis by simp
    next
      case miss
      then have "\<forall>k<CACHE_SIZE. free (cache ?st' ! k) \<or> sector (cache ?st' ! k) \<noteq> x"
        unfolding nth by simp
      from cache_content_miss [OF len' this] miss dev False show ?thesis by simp
    qed
  qed
  with p(5) [of x] show "cache_content ?st' x =
      (if x = s then take BLOCK_SECTOR_SIZE buf else cache_content st x)" by simp
qed

lemma cache_step_props:
  assumes "cache_wf st"
  shows "cache_wf (cache_step op st)"
    and "cache_content (cache_step op st) x =
         (case op of Write s buf \<Rightarrow> if x = s then take BLOCK_SECTOR_SIZE buf else cache_content st x
          | Read s \<Rightarrow> cache_content st x)"
proof -
  show "cache_wf (cache_step op st)"
  proof (cases op)
    case (Read s)
    obtain d st' where r: "fs_cache_read s st = (d, st')" by (cases "fs_cache_read s st")
    from fs_cache_read_props(2) [OF assms r] Read r show ?thesis by simp
  next
    case (Write s buf)
    with fs_cache_write_props(1) [OF assms] show ?thesis by simp
  qed
  show "cache_content (cache_step op st) x =
         (case op of Write s buf \<Rightarrow> if x = s then take BLOCK_SECTOR_SIZE buf else cache_content st x
          | Read s \<Rightarrow> cache_content st x)"
  proof (cases op)
    case (Read s)
    obtain d st' where r: "fs_cache_read s st = (d, st')" by (cases "fs_cache_read s st")
    from fs_cache_read_props(3) [OF assms r] Read r show ?thesis by simp
  next
    case (Write s buf)
    with fs_cache_write_props(2) [OF assms] show ?thesis by simp
  qed
qed

lemma run_cache_ops_wf: "cache_wf st \<Longrightarrow> cache_wf (run_cache_ops ops st)"
  by (induction ops arbitrary: st) (simp_all add: cache_step_props)

lemma run_cache_ops_content:
  "cache_wf st \<Longrightarrow>
   cache_content (run_cache_ops ops st) x =
     (case last_write ops x of Some buf \<Rightarrow> take BLOCK_SECTOR_SIZE buf | None \<Rightarrow> cache_content st x)"
proof (induction ops arbitrary: st)
  case Nil
  then show ?case by simp
next
  case (Cons op ops)
  from Cons.prems have wf: "cache_wf (cache_step op st)" by (rule cache_step_props)
  from Cons.IH [OF wf] cache_step_props(2) [OF Cons.prems, of op x] show ?case
    by (simp split: option.splits cache_op.splits)
qed

lemma last_write_none: "list_all (\<lambda>op. \<not> writes_to s op) ops \<Longrightarrow> last_write ops s = None"
proof (induction ops)
  case Nil
  then show ?case by simp
next
  case (Cons op ops)
  then show ?case by (cases op) simp_all
qed

lemma static_cache_init_wf:
  "cache_wf (fs_cache_init \<lparr>cache = static_cache, clock = 0, fs_device = dev\<rparr>)"
  by (simp add: cache_wf_def fs_cache_init_def static_cache_def CACHE_SIZE_def)

text \<open>
  Claim C3 (cache coherency). After \<^verbatim>\<open>fs_cache_write (s, buf)\<close> of a sector-sized buffer,
  a later \<^verbatim>\<open>fs_cache_read (s)\<close> returns exactly \<open>buf\<close>, whatever reads of any sector and
  writes of other sectors happen in between. The entry of \<open>s\<close> may be evicted and loaded
  again in between: the write-back keeps the content, so the read before the eviction
  that the claim speaks of is one case of this.
\<close>

theorem cache_read_after_write:
  assumes "cache_wf st" and "length buf = BLOCK_SECTOR_SIZE"
    and "list_all (\<lambda>op. \<not> writes_to s op) ops"
  shows "fst (fs_cache_read s (run_cache_ops ops (fs_cache_write s buf st))) = buf"
proof -
  let ?st1 = "fs_cache_write s buf st"
  let ?st2 = "run_cache_ops ops ?st1"
  from assms(1) have wf1: "cache_wf ?st1" by (rule fs_cache_write_props)
  then have wf2: "cache_wf ?st2" by (rule run_cache_ops_wf)
  obtain d st3 where r: "fs_cache_read s ?st2 = (d, st3)" by (cases "fs_cache_read s ?st2")
  from fs_cache_read_props(1) [OF wf2 r] have "d = cache_content ?st2 s" .
  also have "\<dots> = cache_content ?st1 s"
    using run_cache_ops_content [OF wf1, of ops s] last_write_none [OF assms(3)] by simp
  also have "\<dots> = buf"
    using fs_cache_write_props(2) [OF assms(1), of s buf s] assms(2) by simp
  finally show ?thesis using r by simp
qed

theorem cache_read_after_write_witness:
  "cache_wf (fs_cache_init \<lparr>cache = static_cache, clock = 0, fs_device = (\<lambda>_. replicate 512 0)\<rparr>) \<and>
   length (replicate 512 (65 :: uint8_t)) = BLOCK_SECTOR_SIZE \<and>
   list_all (\<lambda>op. \<not> writes_to 7 op) [Read 3, Write 4 (replicate 512 1), Read 7] \<and>
   fst (fs_cache_read 7 (run_cache_ops [Read 3, Write 4 (replicate 512 1), Read 7]
     (fs_cache_write 7 (replicate 512 65)
        (fs_cache_init \<lparr>cache = static_cache, clock = 0, fs_device = (\<lambda>_. replicate 512 0)\<rparr>))))
     = replicate 512 65"
proof -
  have a: "cache_wf (fs_cache_init \<lparr>cache = static_cache, clock = 0, fs_device = (\<lambda>_. replicate 512 0)\<rparr>)"
    by (rule static_cache_init_wf)
  have b: "length (replicate 512 (65 :: uint8_t)) = BLOCK_SECTOR_SIZE"
    by (simp add: BLOCK_SECTOR_SIZE_def)
  have c: "list_all (\<lambda>op. \<not> writes_to 7 op) [Read 3, Write 4 (replicate 512 1), Read 7]"
    by simp
  from cache_read_after_write [OF a b c] a b c show ?thesis by simp
qed

lemma sweep_iterate:
  "\<exists>k. fs_cache_evict_sweep st = (sweep_step ^^ k) st \<and> (\<forall>m<k. sweep_more ((sweep_step ^^ m) st))"
proof (induction st rule: sweep_induct)
  case (1 st)
  show ?case
  proof (cases "sweep_more st")
    case False
    then have "fs_cache_evict_sweep st = (sweep_step ^^ 0) st" by (simp add: sweep_unfold [of st])
    then show ?thesis by blast
  next
    case True
    from "1.IH" [OF True] obtain k where
      k: "fs_cache_evict_sweep (sweep_step st) = (sweep_step ^^ k) (sweep_step st)"
         "\<forall>m<k. sweep_more ((sweep_step ^^ m) (sweep_step st))" by blast
    from True k(1) have "fs_cache_evict_sweep st = (sweep_step ^^ Suc k) st"
      by (simp add: sweep_unfold [of st] funpow_swap1)
    moreover have "\<forall>m<Suc k. sweep_more ((sweep_step ^^ m) st)"
    proof (intro allI impI)
      fix m assume "m < Suc k"
      then show "sweep_more ((sweep_step ^^ m) st)"
        using True k(2) by (cases m) (simp_all add: funpow_swap1)
    qed
    ultimately show ?thesis by blast
  qed
qed

lemma sweep_step_iterate:
  assumes len: "length (cache st) = CACHE_SIZE" and ck: "clock st < CACHE_SIZE"
  shows "length (cache ((sweep_step ^^ m) st)) = CACHE_SIZE \<and>
         clock ((sweep_step ^^ m) st) = (clock st + m) mod CACHE_SIZE \<and>
         (\<forall>j. free (cache ((sweep_step ^^ m) st) ! j) = free (cache st ! j)) \<and>
         (\<forall>j<CACHE_SIZE. access (cache ((sweep_step ^^ m) st) ! j) =
            (access (cache st ! j) \<and> (\<forall>n<m. j \<noteq> (clock st + n) mod CACHE_SIZE)))"
proof (induction m)
  case 0
  with ck len show ?case by simp
next
  case (Suc m)
  let ?s = "(sweep_step ^^ m) st"
  from Suc have l: "length (cache ?s) = CACHE_SIZE" and c: "clock ?s = (clock st + m) mod CACHE_SIZE"
    and f: "\<And>j. free (cache ?s ! j) = free (cache st ! j)"
    and a: "\<And>j. j < CACHE_SIZE \<Longrightarrow> access (cache ?s ! j) =
            (access (cache st ! j) \<and> (\<forall>n<m. j \<noteq> (clock st + n) mod CACHE_SIZE))"
    by simp_all
  have cl: "clock ?s < length (cache ?s)" unfolding l c by (simp add: CACHE_SIZE_def)
  have nth: "\<And>j. cache (sweep_step ?s) ! j =
      (if j = clock ?s then (cache ?s ! j)\<lparr>access := False\<rparr> else cache ?s ! j)"
    using cl by (simp add: sweep_step_def nth_list_update)
  have "length (cache (sweep_step ?s)) = CACHE_SIZE" using l by (simp add: sweep_step_def)
  moreover have "clock (sweep_step ?s) = (clock st + Suc m) mod CACHE_SIZE"
    unfolding sweep_step_def c by (simp add: mod_Suc_eq)
  moreover have "\<forall>j. free (cache (sweep_step ?s) ! j) = free (cache st ! j)"
    unfolding nth using f by simp
  moreover have "\<forall>j<CACHE_SIZE. access (cache (sweep_step ?s) ! j) =
      (access (cache st ! j) \<and> (\<forall>n<Suc m. j \<noteq> (clock st + n) mod CACHE_SIZE))"
  proof (intro allI impI)
    fix j assume j: "j < CACHE_SIZE"
    show "access (cache (sweep_step ?s) ! j) =
      (access (cache st ! j) \<and> (\<forall>n<Suc m. j \<noteq> (clock st + n) mod CACHE_SIZE))"
      unfolding nth using a [OF j] c by (auto simp: less_Suc_eq)
  qed
  ultimately show ?case by simp
qed

lemma evict_index: "fst (fs_cache_evict st) = clock (fs_cache_evict_sweep st)"
  by (simp add: fs_cache_evict_def Let_def)

lemma access_list_update:
  "access e = access (xs ! i) \<Longrightarrow> access (xs[i := e] ! j) = access (xs ! j)"
  by (cases "i < length xs"; cases "i = j") (simp_all add: list_update_beyond)

lemma evict_access:
  "access (cache (snd (fs_cache_evict st)) ! j) = access (cache (fs_cache_evict_sweep st) ! j)"
  by (simp add: fs_cache_evict_def Let_def fs_cache_flush_def block_write_def access_list_update)

lemma full_sweep:
  assumes len: "length (cache st) = CACHE_SIZE" and ck: "clock st < CACHE_SIZE"
    and i: "i = clock (fs_cache_evict_sweep st)"
    and v: "\<not> free (cache st ! i)" "access (cache st ! i)"
  shows "i = clock st"
    and "\<forall>j<CACHE_SIZE. \<not> free (cache st ! j) \<and> access (cache st ! j)"
    and "\<forall>j<CACHE_SIZE. \<not> access (cache (fs_cache_evict_sweep st) ! j)"
proof -
  from sweep_iterate [of st] obtain k where
    k: "fs_cache_evict_sweep st = (sweep_step ^^ k) st" "\<And>m. m < k \<Longrightarrow> sweep_more ((sweep_step ^^ m) st)"
    by blast
  note it = sweep_step_iterate [OF len ck]
  have stop: "\<not> sweep_more ((sweep_step ^^ k) st)" using sweep_stops [of st] k(1) by simp
  have ic: "i = (clock st + k) mod CACHE_SIZE" using i k(1) it [of k] by simp
  then have i64: "i < CACHE_SIZE" by (simp add: CACHE_SIZE_def)
  have k64: "k \<le> CACHE_SIZE"
  proof (rule ccontr)
    assume "\<not> k \<le> CACHE_SIZE"
    then have "sweep_more ((sweep_step ^^ CACHE_SIZE) st)" by (intro k(2)) simp
    then have "access (cache ((sweep_step ^^ CACHE_SIZE) st) ! clock st)"
      using it [of CACHE_SIZE] ck by (simp add: sweep_more_def)
    with it [of CACHE_SIZE] ck have F: "\<forall>n<CACHE_SIZE. clock st \<noteq> (clock st + n) mod CACHE_SIZE"
      by simp
    from F [rule_format, of 0] ck show False by (simp add: CACHE_SIZE_def)
  qed
  from stop it [of k] ic i64 have "free (cache st ! i) \<or> \<not> access (cache ((sweep_step ^^ k) st) ! i)"
    by (simp add: sweep_more_def)
  with v have "\<not> access (cache ((sweep_step ^^ k) st) ! i)" by simp
  with it [of k] i64 v obtain n where n: "n < k" "i = (clock st + n) mod CACHE_SIZE" by auto
  have kn: "k = CACHE_SIZE \<and> n = 0"
  proof -
    from n ic have "(clock st + k) mod CACHE_SIZE = (clock st + n) mod CACHE_SIZE" by simp
    with n(1) have "CACHE_SIZE dvd (clock st + k) - (clock st + n)"
      by (simp add: mod_eq_dvd_iff_nat)
    then have "CACHE_SIZE dvd k - n" by simp
    with n(1) have "CACHE_SIZE \<le> k - n" by (intro dvd_imp_le) simp_all
    moreover have "0 < CACHE_SIZE" by (simp add: CACHE_SIZE_def)
    ultimately have "k = CACHE_SIZE" "n = 0" using k64 by arith+
    then show ?thesis by simp
  qed
  with n ck show "i = clock st" by simp
  have all: "\<And>j. j < CACHE_SIZE \<Longrightarrow> \<exists>m<CACHE_SIZE. j = (clock st + m) mod CACHE_SIZE"
  proof -
    fix j assume j: "j < CACHE_SIZE"
    show "\<exists>m<CACHE_SIZE. j = (clock st + m) mod CACHE_SIZE"
    proof (cases "clock st \<le> j")
      case True
      with j have "j - clock st < CACHE_SIZE" "j = (clock st + (j - clock st)) mod CACHE_SIZE"
        by simp_all
      then show ?thesis by blast
    next
      case False
      with j ck have "j + CACHE_SIZE - clock st < CACHE_SIZE"
        "j = (clock st + (j + CACHE_SIZE - clock st)) mod CACHE_SIZE"
        by simp_all
      then show ?thesis by blast
    qed
  qed
  show "\<forall>j<CACHE_SIZE. \<not> free (cache st ! j) \<and> access (cache st ! j)"
  proof (intro allI impI)
    fix j assume j: "j < CACHE_SIZE"
    from all [OF j] obtain m where m: "m < CACHE_SIZE" "j = (clock st + m) mod CACHE_SIZE" by blast
    with kn have "sweep_more ((sweep_step ^^ m) st)" by (intro k(2)) simp
    with it [of m] m j have "\<not> free (cache st ! j)" "access (cache ((sweep_step ^^ m) st) ! j)"
      by (simp_all add: sweep_more_def)
    with it [of m] j show "\<not> free (cache st ! j) \<and> access (cache st ! j)" by simp
  qed
  show "\<forall>j<CACHE_SIZE. \<not> access (cache (fs_cache_evict_sweep st) ! j)"
  proof (intro allI impI)
    fix j assume j: "j < CACHE_SIZE"
    from all [OF j] obtain m where m: "m < CACHE_SIZE" "j = (clock st + m) mod CACHE_SIZE" by blast
    with it [of k] j kn show "\<not> access (cache (fs_cache_evict_sweep st) ! j)"
      unfolding k(1) by auto
  qed
qed

text \<open>
  Claim C8 (clock fairness). When the hand of \<^verbatim>\<open>fs_cache_evict\<close> stands on an entry in
  use whose access flag is set, the eviction is the eviction from the state in which
  that flag is cleared and the hand has moved on: the entry is not the victim at that
  encounter. And when the entry handed out was in use with its access flag set at the
  start, the hand has gone once around the whole array: it started on that entry, every
  entry was in use with its flag set, and every flag is clear afterwards.
\<close>

theorem clock_second_chance:
  assumes "length (cache st) = CACHE_SIZE" and "clock st < CACHE_SIZE"
  shows "(\<not> free (cache st ! clock st) \<and> access (cache st ! clock st) \<longrightarrow>
            fs_cache_evict st =
            fs_cache_evict (st\<lparr>cache := (cache st)[clock st := (cache st ! clock st)\<lparr>access := False\<rparr>],
                               clock := (clock st + 1) mod CACHE_SIZE\<rparr>)) \<and>
         (\<not> free (cache st ! fst (fs_cache_evict st)) \<and> access (cache st ! fst (fs_cache_evict st)) \<longrightarrow>
            fst (fs_cache_evict st) = clock st \<and>
            (\<forall>j<CACHE_SIZE. \<not> free (cache st ! j) \<and> access (cache st ! j)) \<and>
            (\<forall>j<CACHE_SIZE. \<not> access (cache (snd (fs_cache_evict st)) ! j)))"
proof (intro conjI impI)
  assume "\<not> free (cache st ! clock st) \<and> access (cache st ! clock st)"
  with assms have "sweep_more st" by (simp add: sweep_more_def)
  then have "fs_cache_evict_sweep st = fs_cache_evict_sweep (sweep_step st)"
    by (simp add: sweep_unfold [of st])
  then show "fs_cache_evict st =
      fs_cache_evict (st\<lparr>cache := (cache st)[clock st := (cache st ! clock st)\<lparr>access := False\<rparr>],
                         clock := (clock st + 1) mod CACHE_SIZE\<rparr>)"
    by (simp add: fs_cache_evict_def sweep_step_def)
next
  assume v: "\<not> free (cache st ! fst (fs_cache_evict st)) \<and> access (cache st ! fst (fs_cache_evict st))"
  note fs = full_sweep [OF assms evict_index]
  from v show "fst (fs_cache_evict st) = clock st" by (intro fs(1)) simp_all
  from v show "\<forall>j<CACHE_SIZE. \<not> free (cache st ! j) \<and> access (cache st ! j)"
    by (intro fs(2)) simp_all
  from v have "\<forall>j<CACHE_SIZE. \<not> access (cache (fs_cache_evict_sweep st) ! j)"
    by (intro fs(3)) simp_all
  then show "\<forall>j<CACHE_SIZE. \<not> access (cache (snd (fs_cache_evict st)) ! j)"
    by (simp add: evict_access)
qed

theorem clock_second_chance_witness:
  "length (cache full_cache_state) = CACHE_SIZE \<and> clock full_cache_state < CACHE_SIZE \<and>
   \<not> free (cache full_cache_state ! clock full_cache_state) \<and>
   access (cache full_cache_state ! clock full_cache_state) \<and>
   fs_cache_evict full_cache_state =
     fs_cache_evict (full_cache_state\<lparr>cache := (cache full_cache_state)
        [clock full_cache_state := (cache full_cache_state ! clock full_cache_state)\<lparr>access := False\<rparr>],
        clock := (clock full_cache_state + 1) mod CACHE_SIZE\<rparr>) \<and>
   \<not> free (cache full_cache_state ! fst (fs_cache_evict full_cache_state)) \<and>
   access (cache full_cache_state ! fst (fs_cache_evict full_cache_state)) \<and>
   fst (fs_cache_evict full_cache_state) = clock full_cache_state \<and>
   \<not> free (cache full_cache_state ! 17) \<and> access (cache full_cache_state ! 17) \<and>
   \<not> access (cache (snd (fs_cache_evict full_cache_state)) ! 17)"
proof -
  have len: "length (cache full_cache_state) = CACHE_SIZE"
    and ck: "clock full_cache_state < CACHE_SIZE"
    by (simp_all add: full_cache_state_def CACHE_SIZE_def)
  have "fst (fs_cache_evict full_cache_state) < CACHE_SIZE"
    unfolding evict_index using ck by (rule sweep_clock)
  then have v: "\<not> free (cache full_cache_state ! fst (fs_cache_evict full_cache_state)) \<and>
      access (cache full_cache_state ! fst (fs_cache_evict full_cache_state))"
    by (simp add: full_cache_state_def)
  have h: "\<not> free (cache full_cache_state ! clock full_cache_state) \<and>
      access (cache full_cache_state ! clock full_cache_state)"
    by (simp add: full_cache_state_def CACHE_SIZE_def)
  have n: "(17::nat) < CACHE_SIZE" by (simp add: CACHE_SIZE_def)
  note t = clock_second_chance [OF len ck]
  from t h have A: "fs_cache_evict full_cache_state =
     fs_cache_evict (full_cache_state\<lparr>cache := (cache full_cache_state)
        [clock full_cache_state := (cache full_cache_state ! clock full_cache_state)\<lparr>access := False\<rparr>],
        clock := (clock full_cache_state + 1) mod CACHE_SIZE\<rparr>)"
    by (rule conjunct1 [THEN mp])
  from t v have B: "fst (fs_cache_evict full_cache_state) = clock full_cache_state \<and>
      (\<forall>j<CACHE_SIZE. \<not> free (cache full_cache_state ! j) \<and> access (cache full_cache_state ! j)) \<and>
      (\<forall>j<CACHE_SIZE. \<not> access (cache (snd (fs_cache_evict full_cache_state)) ! j))"
    by (rule conjunct2 [THEN mp])
  with n have C: "\<not> free (cache full_cache_state ! 17)" "access (cache full_cache_state ! 17)"
    "\<not> access (cache (snd (fs_cache_evict full_cache_state)) ! 17)"
    by blast+
  from B have D: "fst (fs_cache_evict full_cache_state) = clock full_cache_state" by (rule conjunct1)
  from v have v1: "\<not> free (cache full_cache_state ! fst (fs_cache_evict full_cache_state))"
    and v2: "access (cache full_cache_state ! fst (fs_cache_evict full_cache_state))" by blast+
  from h have h1: "\<not> free (cache full_cache_state ! clock full_cache_state)"
    and h2: "access (cache full_cache_state ! clock full_cache_state)" by blast+
  show ?thesis
    by (intro conjI) (rule len ck h1 h2 A v1 v2 D C)+
qed

lemma destroy_from_props:
  "cache_wf st \<Longrightarrow> clean_upto i st \<Longrightarrow> i + k \<le> CACHE_SIZE \<Longrightarrow>
   cache_wf (fs_cache_destroy_from k i st) \<and>
   (\<forall>x. cache_content (fs_cache_destroy_from k i st) x = cache_content st x) \<and>
   clean_upto (i + k) (fs_cache_destroy_from k i st)"
proof (induction k arbitrary: i st)
  case 0
  then show ?case by simp
next
  case (Suc k)
  let ?st1 = "if \<not> free (cache st ! i) then fs_cache_flush i st else st"
  from Suc.prems have i: "i < CACHE_SIZE" by simp
  with Suc.prems have il: "i < length (cache st)" by (simp add: cache_wf_def)
  have wf1: "cache_wf ?st1" using Suc.prems(1) i by (simp add: flush_wf)
  have c1: "\<forall>x. cache_content ?st1 x = cache_content st x"
    using Suc.prems(1) i by (simp add: flush_content)
  have cl1: "clean_upto (Suc i) ?st1"
    using Suc.prems(2) unfolding clean_upto_def
    by (auto simp: flush_lines [OF il] less_Suc_eq)
  from Suc.IH [OF wf1 cl1] Suc.prems(3) c1 show ?case by simp
qed

lemma destroy_props:
  assumes wf: "cache_wf st"
  shows "fs_device (fs_cache_destroy st) x = cache_content st x"
proof -
  let ?st' = "fs_cache_destroy st"
  have "clean_upto 0 st" by (simp add: clean_upto_def)
  from destroy_from_props [OF wf this, of CACHE_SIZE]
  have wf': "cache_wf ?st'" and c: "cache_content ?st' x = cache_content st x"
    and cl: "clean_upto CACHE_SIZE ?st'"
    by (simp_all add: fs_cache_destroy_def)
  from wf' have "cache_content ?st' x = fs_device ?st' x"
  proof (cases rule: cache_content_cases [where s = x])
    case (hit j)
    with cl have "\<not> dirty (cache ?st' ! j)" by (auto simp: clean_upto_def)
    with wf' hit show ?thesis unfolding cache_wf_def by auto
  next
    case miss
    then show ?thesis by simp
  qed
  with c show ?thesis by simp
qed

lemma dirty_cache_state_wf: "cache_wf dirty_cache_state"
  by (auto simp: cache_wf_def dirty_cache_state_def CACHE_SIZE_def nth_Cons' split: if_splits)

text \<open>
  Claim C4 (write-back correctness). When the entry \<^verbatim>\<open>fs_cache_evict\<close> hands out was in
  use and dirty, the device holds that entry's data at its sector when the eviction
  returns, and the entry is marked free (it is bound to its new sector only after that).
  And after any sequence of cache reads and writes followed by \<^verbatim>\<open>fs_cache_destroy\<close>,
  the device holds, at every sector written in the sequence, the sector-sized prefix of
  the buffer last written to it.
\<close>

theorem write_back_correct:
  assumes "cache_wf st"
  shows "(\<not> free (cache st ! fst (fs_cache_evict st)) \<and> dirty (cache st ! fst (fs_cache_evict st)) \<longrightarrow>
            fs_device (snd (fs_cache_evict st)) (sector (cache st ! fst (fs_cache_evict st))) =
              data (cache st ! fst (fs_cache_evict st)) \<and>
            free (cache (snd (fs_cache_evict st)) ! fst (fs_cache_evict st))) \<and>
         (\<forall>ops s buf. last_write ops s = Some buf \<longrightarrow>
            fs_device (fs_cache_destroy (run_cache_ops ops st)) s = take BLOCK_SECTOR_SIZE buf)"
proof (intro conjI allI impI)
  let ?i = "fst (fs_cache_evict st)"
  let ?st1 = "fs_cache_evict_sweep st"
  assume v: "\<not> free (cache st ! ?i) \<and> dirty (cache st ! ?i)"
  have sl: "same_lines st ?st1" by (rule sweep_same_lines)
  then have e: "free (cache ?st1 ! ?i) = free (cache st ! ?i)" "dirty (cache ?st1 ! ?i) = dirty (cache st ! ?i)"
    "sector (cache ?st1 ! ?i) = sector (cache st ! ?i)" "data (cache ?st1 ! ?i) = data (cache st ! ?i)"
    "fs_device ?st1 = fs_device st"
    by (simp_all add: same_lines_def)
  have i: "?i = clock ?st1" by (rule evict_index)
  from v e i have "snd (fs_cache_evict st) =
      set_line ?i ((cache (fs_cache_flush ?i ?st1) ! ?i)\<lparr>free := True\<rparr>) (fs_cache_flush ?i ?st1)"
    by (simp add: evict_eq Let_def)
  with v e show "fs_device (snd (fs_cache_evict st)) (sector (cache st ! ?i)) = data (cache st ! ?i)"
    by (simp add: set_line_simps flush_device)
  have ev: "fs_cache_evict st = (?i, snd (fs_cache_evict st))" by simp
  from evict_props(2) [OF assms ev] show "free (cache (snd (fs_cache_evict st)) ! ?i)" .
next
  fix ops s buf
  assume lw: "last_write ops s = Some buf"
  have "cache_wf (run_cache_ops ops st)" using assms by (rule run_cache_ops_wf)
  from destroy_props [OF this, of s] run_cache_ops_content [OF assms, of ops s] lw
  show "fs_device (fs_cache_destroy (run_cache_ops ops st)) s = take BLOCK_SECTOR_SIZE buf" by simp
qed

lemma dirty_cache_state_evict: "fst (fs_cache_evict dirty_cache_state) = 0"
  unfolding evict_index
  by (subst sweep_unfold) (simp add: sweep_more_def dirty_cache_state_def)

theorem write_back_correct_witness:
  "cache_wf dirty_cache_state \<and>
   \<not> free (cache dirty_cache_state ! fst (fs_cache_evict dirty_cache_state)) \<and>
   dirty (cache dirty_cache_state ! fst (fs_cache_evict dirty_cache_state)) \<and>
   fs_device (snd (fs_cache_evict dirty_cache_state)) 5 = replicate 512 7 \<and>
   free (cache (snd (fs_cache_evict dirty_cache_state)) ! 0) \<and>
   last_write [Write 9 (replicate 512 1), Read 2, Write 9 (replicate 512 3), Read 9] 9
     = Some (replicate 512 3) \<and>
   fs_device (fs_cache_destroy
     (run_cache_ops [Write 9 (replicate 512 1), Read 2, Write 9 (replicate 512 3), Read 9]
        dirty_cache_state)) 9 = replicate 512 3"
proof -
  note wf = dirty_cache_state_wf
  note i = dirty_cache_state_evict
  have v: "\<not> free (cache dirty_cache_state ! fst (fs_cache_evict dirty_cache_state)) \<and>
      dirty (cache dirty_cache_state ! fst (fs_cache_evict dirty_cache_state))"
    unfolding i by (simp add: dirty_cache_state_def)
  have l: "last_write [Write 9 (replicate 512 1), Read 2, Write 9 (replicate 512 3), Read 9] 9
     = Some (replicate 512 3)" by simp
  have e: "sector (cache dirty_cache_state ! 0) = 5" "data (cache dirty_cache_state ! 0) = replicate 512 7"
    by (simp_all add: dirty_cache_state_def)
  note t = write_back_correct [OF wf]
  from t v have "fs_device (snd (fs_cache_evict dirty_cache_state))
        (sector (cache dirty_cache_state ! fst (fs_cache_evict dirty_cache_state))) =
      data (cache dirty_cache_state ! fst (fs_cache_evict dirty_cache_state)) \<and>
      free (cache (snd (fs_cache_evict dirty_cache_state)) ! fst (fs_cache_evict dirty_cache_state))"
    by (rule conjunct1 [THEN mp])
  then have A: "fs_device (snd (fs_cache_evict dirty_cache_state)) 5 = replicate 512 7"
    and B: "free (cache (snd (fs_cache_evict dirty_cache_state)) ! 0)"
    unfolding i e by simp_all
  from t have "\<forall>ops s buf. last_write ops s = Some buf \<longrightarrow>
      fs_device (fs_cache_destroy (run_cache_ops ops dirty_cache_state)) s = take BLOCK_SECTOR_SIZE buf"
    by (rule conjunct2)
  from this [rule_format, OF l]
  have C: "fs_device (fs_cache_destroy
     (run_cache_ops [Write 9 (replicate 512 1), Read 2, Write 9 (replicate 512 3), Read 9]
        dirty_cache_state)) 9 = replicate 512 3"
    by (simp only: BLOCK_SECTOR_SIZE_def take_replicate min.idem)
  from v have v1: "\<not> free (cache dirty_cache_state ! fst (fs_cache_evict dirty_cache_state))"
    and v2: "dirty (cache dirty_cache_state ! fst (fs_cache_evict dirty_cache_state))" by blast+
  show ?thesis
    by (intro conjI) (rule wf v1 v2 A B l C)+
qed

lemma sint_word_of_int_32:
  "- (2 ^ 31) \<le> k \<Longrightarrow> k < 2 ^ 31 \<Longrightarrow> sint (word_of_int k :: 32 word) = k"
  by (simp add: sint_sbintrunc' signed_take_bit_int_eq_self)

lemma unat_word_of_int_32:
  "0 \<le> k \<Longrightarrow> k < 2 ^ 32 \<Longrightarrow> unat (word_of_int k :: 32 word) = nat k"
  by (simp add: unat_eq_nat_uint uint_word_of_int)

lemma sdiv_nonneg: "0 \<le> (k :: int) \<Longrightarrow> 0 < l \<Longrightarrow> k sdiv l = k div l"
  by (cases "k = 0") (simp_all add: signed_divide_int_def)

lemma smod_nonneg: "0 \<le> (k :: int) \<Longrightarrow> 0 < l \<Longrightarrow> k smod l = k mod l"
  by (cases "k = 0") (simp_all add: smod_int_alt_def sgn_if)

lemma c_div_nonneg:
  assumes "0 \<le> sint a" "0 < sint b"
  shows "c_div a b = word_of_int (sint a div sint b)"
  using assms by (simp add: c_div_def sdiv_nonneg)

lemma c_mod_nonneg:
  assumes "0 \<le> sint a" "0 < sint b"
  shows "c_mod a b = word_of_int (sint a mod sint b)"
  using assms by (simp add: c_mod_def smod_nonneg)

lemma index_to_sector_translate:
  assumes q: "0 \<le> q" "q < 2 ^ 31"
  shows "index_to_sector disk (word_of_int q) st = Inr (translate_spec disk (nat q) st)"
proof -
  let ?i = "word_of_int q :: 32 word"
  have si: "sint ?i = q" using q by (simp add: sint_word_of_int_32)
  have l1: "(?i <s 124) = (q < 124)" and l2: "(?i <s 252) = (q < 252)"
    and l3: "(?i <s 16636) = (q < 16636)" and l0: "(?i <s 0) = (q < 0)"
    by (simp_all add: word_sless_alt si)
  have c: "(of_nat DIRECT_BLOCKS :: 32 word) = 124"
    "(of_nat (DIRECT_BLOCKS + INDIRECT_BLOCKS) :: 32 word) = 252"
    "(of_nat (DIRECT_BLOCKS + INDIRECT_BLOCKS + DOUBLE_INDIRECT_BLOCKS) :: 32 word) = 16636"
    "(of_nat INDIRECT_BLOCKS :: 32 word) = 128"
    by (simp_all add: DIRECT_BLOCKS_def INDIRECT_BLOCKS_def DOUBLE_INDIRECT_BLOCKS_def)
  have s1: "?i - 124 = word_of_int (q - 124)" and s2: "?i - 252 = word_of_int (q - 252)"
    by simp_all
  consider (d) "q < 124" | (i) "124 \<le> q" "q < 252" | (dd) "252 \<le> q" "q < 16636" | (o) "16636 \<le> q"
    by linarith
  then show ?thesis
  proof cases
    case d
    with q have "nat q < 124" by simp
    with d q show ?thesis
      unfolding index_to_sector_def c l0 l1 l2 l3
      by (simp add: translate_spec_def unat_word_of_int_32)
  next
    case i
    with q have "unat (word_of_int (q - 124) :: 32 word) = nat (q - 124)"
      by (intro unat_word_of_int_32) simp_all
    then have u: "unat (?i - 124) = nat q - 124" by (simp add: nat_diff_distrib)
    from i q have "\<not> nat q < 124" "nat q < 252" by simp_all
    with i q show ?thesis
      unfolding index_to_sector_def c l0 l1 l2 l3 u
      by (simp add: translate_spec_def split: prod.splits)
  next
    case dd
    with q have "sint (word_of_int (q - 252) :: 32 word) = q - 252"
      by (intro sint_word_of_int_32) simp_all
    then have sq: "sint (?i - 252) = q - 252" by simp
    have s128: "sint (128 :: 32 word) = 128" by simp
    from dd q have d0: "0 \<le> (q - 252) div 128" "(q - 252) div 128 < 2 ^ 32"
      "0 \<le> (q - 252) mod 128" "(q - 252) mod 128 < 2 ^ 32"
      by (simp_all add: pos_imp_zdiv_nonneg_iff)
    from dd q have u1: "unat (c_div (?i - 252) 128) = (nat q - 252) div 128"
      by (simp add: c_div_nonneg sq s128 unat_word_of_int_32 d0 nat_div_distrib nat_diff_distrib)
    from dd q have u2: "unat (c_mod (?i - 252) 128) = (nat q - 252) mod 128"
      by (simp add: c_mod_nonneg sq s128 unat_word_of_int_32 d0 nat_mod_distrib nat_diff_distrib)
    from dd q have "\<not> nat q < 124" "\<not> nat q < 252" "nat q < 16636" by simp_all
    with dd q show ?thesis
      unfolding index_to_sector_def c l0 l1 l2 l3
      by (simp add: translate_spec_def Let_def u1 u2 split: prod.splits)
  next
    case o
    with q have "\<not> nat q < 124" "\<not> nat q < 252" "\<not> nat q < 16636" by simp_all
    with o q show ?thesis
      unfolding index_to_sector_def c l0 l1 l2 l3
      by (simp add: translate_spec_def)
  qed
qed

text \<open>
  Claim C6. \<^verbatim>\<open>byte_to_sector (inode, pos)\<close> is the block map of the inode's on-disk record
  at index \<open>pos / 512\<close> when \<open>0 \<le> pos < length\<close>, and the sentinel \<open>-1\<close> for every
  other \<open>pos\<close>. The block map is stated as the specification words it
  (\<open>translate_spec\<close>); the source's \<^verbatim>\<open>index_to_sector\<close> agrees with it on every index that
  \<^verbatim>\<open>byte_to_sector\<close> passes.
\<close>

theorem byte_to_sector_translate:
  "byte_to_sector inode pos st =
     (if 0 \<le> sint pos \<and> sint pos < sint (length' (data' inode))
      then Inr (translate_spec (data' inode) (nat (sint pos) div 512) st)
      else Inr (- 1, st))"
proof (cases "0 \<le> sint pos \<and> sint pos < sint (length' (data' inode))")
  case False
  then show ?thesis by (auto simp: byte_to_sector_def word_sle_eq word_sless_alt)
next
  case True
  then have p: "0 \<le> sint pos" by simp
  have p31: "sint pos < 2 ^ 31" using sint_lt [of pos] by simp
  have cd: "c_div pos 512 = word_of_int (sint pos div 512)"
    using p by (simp add: c_div_nonneg)
  have "sint pos div 512 \<le> sint pos" using p by simp
  with p p31 have q: "0 \<le> sint pos div 512" "sint pos div 512 < 2 ^ 31"
    by (simp_all add: pos_imp_zdiv_nonneg_iff)
  have n: "nat (sint pos div 512) = nat (sint pos) div 512" by (simp add: nat_div_distrib)
  from True show ?thesis
    by (simp add: byte_to_sector_def word_sle_eq word_sless_alt cd index_to_sector_translate [OF q] n)
qed

text \<open>
  Claim C5. With writes allowed and a positive size, \<^verbatim>\<open>inode_write_at\<close> on a range whose
  last byte \<open>offset + size - 1\<close> has no sector ends in the \<^verbatim>\<open>PANIC\<close>: whenever
  \<^verbatim>\<open>byte_to_sector\<close> answers \<open>-1\<close> for that byte, and so in particular whenever that
  byte lies outside \<open>0 \<le> pos < length\<close>. No byte count is returned and no state: there
  is no short write and no growth.
\<close>

theorem write_past_end_panics:
  assumes "deny_write_cnt inode = 0" and "0 <s sz"
  shows "(\<forall>st1. byte_to_sector inode (offset + sz - 1) st = Inr (- 1, st1) \<longrightarrow>
            inode_write_at inode mem buffer sz offset st = Inl PANIC) \<and>
         (\<not> (0 \<le>s offset + sz - 1 \<and> offset + sz - 1 <s inode_length inode) \<longrightarrow>
            inode_write_at inode mem buffer sz offset st = Inl PANIC)"
proof (intro conjI allI impI)
  fix st1
  assume "byte_to_sector inode (offset + sz - 1) st = Inr (- 1, st1)"
  with assms(1) show "inode_write_at inode mem buffer sz offset st = Inl PANIC"
    by (simp add: inode_write_at_def)
next
  assume "\<not> (0 \<le>s offset + sz - 1 \<and> offset + sz - 1 <s inode_length inode)"
  then have "byte_to_sector inode (offset + sz - 1) st = Inr (- 1, st)"
    by (auto simp: byte_to_sector_def inode_length_def)
  with assms(1) show "inode_write_at inode mem buffer sz offset st = Inl PANIC"
    by (simp add: inode_write_at_def)
qed

text \<open>
  Claim C10. While \<^verbatim>\<open>deny_write_cnt\<close> is positive (the source tests it for non-zero),
  \<^verbatim>\<open>inode_write_at\<close> returns 0 at once for every buffer, size and offset, with the cache
  and the device (the whole state) as they were. So a call that returns a non-zero count
  or a changed state was made with \<^verbatim>\<open>deny_write_cnt\<close> zero.
\<close>

theorem write_denied:
  "(0 < deny_write_cnt inode \<longrightarrow> inode_write_at inode mem buffer sz offset st = Inr (0, st)) \<and>
   (\<forall>n st'. inode_write_at inode mem buffer sz offset st = Inr (n, st') \<and> (n \<noteq> 0 \<or> st' \<noteq> st) \<longrightarrow>
      deny_write_cnt inode = 0)"
  by (auto simp: inode_write_at_def)

text \<open>The cache operations leave the rest of the file system state alone.\<close>

lemma more_eq_fields:
  fixes a b :: fs_state
  assumes "cache_state.more a = cache_state.more b"
  shows "open_inodes a = open_inodes b" and "free_sectors a = free_sectors b"
    and "heap_slots a = heap_slots b"
  using assms by (cases a; cases b; simp)+

lemma sweep_more_part: "cache_state.more (fs_cache_evict_sweep st) = cache_state.more st"
  using sweep_same_lines [of st] by (simp add: same_lines_def)

lemma evict_more_part: "cache_state.more (snd (fs_cache_evict st)) = cache_state.more st"
  by (simp add: fs_cache_evict_def Let_def fs_cache_flush_def block_write_def sweep_more_part)

lemma load_more_part: "cache_state.more (snd (fs_cache_load s st)) = cache_state.more st"
  using evict_more_part [of st] by (auto simp: fs_cache_load_def split: prod.splits)

lemma get_more_part: "cache_state.more (snd (fs_cache_get s st)) = cache_state.more st"
  by (simp add: fs_cache_get_def load_more_part split: option.splits)

lemma read_more_part: "cache_state.more (snd (fs_cache_read s st)) = cache_state.more st"
  using get_more_part [of s st] by (auto simp: read_eq Let_def set_line_simps split: prod.splits)

lemma write_more_part: "cache_state.more (fs_cache_write s buf st) = cache_state.more st"
  using get_more_part [of s st] by (auto simp: write_eq Let_def set_line_simps split: prod.splits)

lemmas read_frame = more_eq_fields [OF read_more_part]

lemmas write_frame = more_eq_fields [OF write_more_part]

lemma find_open_Some:
  "find_open es s = Some p \<Longrightarrow> \<exists>i. (p, i) \<in> set es \<and> sector' i = s"
  by (induction es s rule: find_open.induct) (auto split: if_splits)

lemma find_open_None:
  "find_open es s = None \<longleftrightarrow> s \<notin> set (map (\<lambda>(p, i). sector' i) es)"
  by (induction es s rule: find_open.induct) auto

lemma find_open_unique:
  "distinct (map (\<lambda>(p, i). sector' i) es) \<Longrightarrow> (p, i) \<in> set es \<Longrightarrow> find_open es (sector' i) = Some p"
  by (induction es "sector' i" rule: find_open.induct) (auto simp: rev_image_eqI)

lemma fold_max_ge: "x \<in> set xs \<Longrightarrow> x \<le> fold max xs (a :: nat)"
proof (induction xs arbitrary: a)
  case Nil
  then show ?case by simp
next
  case (Cons y ys)
  have mono: "\<And>b. b \<le> fold max ys b"
  proof -
    fix b show "b \<le> fold max ys b"
      by (induction ys arbitrary: b) (auto intro: order_trans [OF max.cobounded2])
  qed
  from Cons show ?case
    by (auto intro: order_trans [OF max.cobounded1 mono])
qed

lemma fresh_pointer: "Suc (fold max (map fst es) 0) \<notin> set (map fst es)"
proof
  assume "Suc (fold max (map fst es) 0) \<in> set (map fst es)"
  from fold_max_ge [OF this, of 0] show False by simp
qed

declare allocate_entries.simps [simp del]

declare allocate_direct.simps [simp del]

declare deallocate_entries.simps [simp del]

declare deallocate_direct.simps [simp del]

text \<open>Deallocation leaves the registry alone.\<close>

lemma deallocate_direct_open:
  "open_inodes (deallocate_direct i l d st) = open_inodes st"
proof (induction i l d st rule: deallocate_direct.induct)
  case (1 i l d st)
  show ?case
  proof (cases "i < l")
    case True
    with "1.IH" show ?thesis
      by (subst deallocate_direct.simps) (simp add: free_map_release_def)
  next
    case False
    then show ?thesis by (subst deallocate_direct.simps) simp
  qed
qed

lemma deallocate_entries_open:
  "(\<And>e k s s'. sub e k s = Inr s' \<Longrightarrow> open_inodes s' = open_inodes s) \<Longrightarrow>
   deallocate_entries sub n i l nsectors blocks st = Inr st' \<Longrightarrow> open_inodes st' = open_inodes st"
proof (induction sub n i l nsectors blocks st rule: deallocate_entries.induct)
  case (1 sub n i l nsectors blocks st)
  note eq = "1.prems"(2)
  show ?case
  proof (cases "i < l")
    case False
    with eq show ?thesis by (subst (asm) deallocate_entries.simps) simp
  next
    case True
    show ?thesis
    proof (cases "i < INDIRECT_BLOCKS")
      case False
      with True eq show ?thesis by (subst (asm) deallocate_entries.simps) simp
    next
      case ib: True
      show ?thesis
      proof (cases "sub (blocks ! i) (min nsectors n) st")
        case (Inl e)
        with True ib eq show ?thesis by (subst (asm) deallocate_entries.simps) simp
      next
        case (Inr st1)
        with True ib eq have
          r: "deallocate_entries sub n (Suc i) l (nsectors - min nsectors n) blocks st1 = Inr st'"
          by (subst (asm) deallocate_entries.simps) simp
        from "1.IH" [OF True ib Inr "1.prems"(1) r] "1.prems"(1) [OF Inr] show ?thesis by simp
      qed
    qed
  qed
qed

lemma inode_deallocate_indirect_open:
  "inode_deallocate_indirect entry nsectors depth st = Inr st' \<Longrightarrow> open_inodes st' = open_inodes st"
proof (induction depth arbitrary: entry nsectors st st')
  case 0
  then show ?case by (auto simp: free_map_release_def)
next
  case (Suc depth)
  obtain buf st1 where r: "fs_cache_read entry st = (buf, st1)" by (cases "fs_cache_read entry st")
  then have o1: "open_inodes st1 = open_inodes st" using read_frame(1) [of entry st] by simp
  from Suc.prems r obtain st2 where
    d: "deallocate_entries (\<lambda>e k s. inode_deallocate_indirect e k depth s)
          (if Suc depth = 1 then 1 else INDIRECT_BLOCKS) 0
          (DIV_ROUND_UP nsectors (if Suc depth = 1 then 1 else INDIRECT_BLOCKS)) nsectors
          (indirect_block_of_sector buf) st1 = Inr st2"
    and st': "st' = free_map_release entry st2"
    by (auto simp: Let_def split: sum.splits)
  have "open_inodes st2 = open_inodes st1"
    by (rule deallocate_entries_open [OF _ d]) (rule Suc.IH)
  with o1 st' show ?case by (simp add: free_map_release_def)
qed

lemma inode_deallocate_open:
  "inode_deallocate inode st = Inr (ok, st') \<Longrightarrow> open_inodes st' = open_inodes st"
  by (auto simp: inode_deallocate_def Let_def deallocate_direct_open
      simp del: inode_deallocate_indirect.simps
      dest!: inode_deallocate_indirect_open split: if_splits sum.splits)

lemma registry_okD:
  assumes "registry_ok cnt st"
  shows "distinct (map fst (open_inodes st))"
    and "\<And>p i q j. (p, i) \<in> set (open_inodes st) \<Longrightarrow> (q, j) \<in> set (open_inodes st) \<Longrightarrow>
           sector' i = sector' j \<Longrightarrow> p = q \<and> i = j"
    and "\<And>p i q j. (p, i) \<in> set (open_inodes st) \<Longrightarrow> (p, j) \<in> set (open_inodes st) \<Longrightarrow> i = j"
    and "\<And>p i. (p, i) \<in> set (open_inodes st) \<Longrightarrow> open_cnt i = cnt (sector' i) \<and> 0 < open_cnt i"
    and "\<And>s. (\<And>p i. (p, i) \<in> set (open_inodes st) \<Longrightarrow> sector' i \<noteq> s) \<Longrightarrow> cnt s = 0"
proof -
  from assms have d1: "distinct (map fst (open_inodes st))"
    and d2: "distinct (map (\<lambda>(p, i). sector' i) (open_inodes st))"
    and la: "list_all (\<lambda>(p, i). open_cnt i = cnt (sector' i) \<and> 0 < open_cnt i) (open_inodes st)"
    and z: "\<And>s. s \<notin> set (map (\<lambda>(p, i). sector' i) (open_inodes st)) \<Longrightarrow> cnt s = 0"
    by (simp_all add: registry_ok_def)
  show "distinct (map fst (open_inodes st))" by (rule d1)
  from d2 have inj: "inj_on (\<lambda>(p, i). sector' i) (set (open_inodes st))"
    by (simp add: distinct_map)
  show "\<And>p i q j. (p, i) \<in> set (open_inodes st) \<Longrightarrow> (q, j) \<in> set (open_inodes st) \<Longrightarrow>
           sector' i = sector' j \<Longrightarrow> p = q \<and> i = j"
  proof -
    fix p i q j
    assume "(p, i) \<in> set (open_inodes st)" "(q, j) \<in> set (open_inodes st)" "sector' i = sector' j"
    with inj_onD [OF inj, of "(p, i)" "(q, j)"] show "p = q \<and> i = j" by simp
  qed
  from d1 have inj1: "inj_on fst (set (open_inodes st))" by (simp add: distinct_map)
  show "\<And>p i q j. (p, i) \<in> set (open_inodes st) \<Longrightarrow> (p, j) \<in> set (open_inodes st) \<Longrightarrow> i = j"
  proof -
    fix p i j
    assume "(p, i) \<in> set (open_inodes st)" "(p, j) \<in> set (open_inodes st)"
    with inj_onD [OF inj1, of "(p, i)" "(p, j)"] show "i = j" by simp
  qed
  show "\<And>p i. (p, i) \<in> set (open_inodes st) \<Longrightarrow> open_cnt i = cnt (sector' i) \<and> 0 < open_cnt i"
    using la by (auto simp: list_all_iff)
  show "\<And>s. (\<And>p i. (p, i) \<in> set (open_inodes st) \<Longrightarrow> sector' i \<noteq> s) \<Longrightarrow> cnt s = 0"
    by (rule z) auto
qed

lemma registry_okI:
  assumes "distinct (map fst (open_inodes st))"
    and "distinct (map (\<lambda>(p, i). sector' i) (open_inodes st))"
    and "\<And>p i. (p, i) \<in> set (open_inodes st) \<Longrightarrow> open_cnt i = cnt (sector' i) \<and> 0 < open_cnt i"
    and "\<And>s. (\<And>p i. (p, i) \<in> set (open_inodes st) \<Longrightarrow> sector' i \<noteq> s) \<Longrightarrow> cnt s = 0"
  shows "registry_ok cnt st"
  unfolding registry_ok_def
proof (intro conjI allI impI)
  show "list_all (\<lambda>(p, i). open_cnt i = cnt (sector' i) \<and> 0 < open_cnt i) (open_inodes st)"
    using assms(3) by (auto simp: list_all_iff)
next
  fix s assume "s \<notin> set (map (\<lambda>(p, i). sector' i) (open_inodes st))"
  then have "\<And>p i. (p, i) \<in> set (open_inodes st) \<Longrightarrow> sector' i \<noteq> s" by force
  then show "cnt s = 0" by (rule assms(4))
qed (use assms in simp_all)

lemma update_inode_open:
  "open_inodes (update_inode p f st) =
     map (\<lambda>(q, i). if q = p then (q, f i) else (q, i)) (open_inodes st)"
  by (simp add: update_inode_def)

lemma update_inode_fst: "map fst (open_inodes (update_inode p f st)) = map fst (open_inodes st)"
  by (simp add: update_inode_open split_beta cong: map_cong)

lemma update_inode_sectors:
  "(\<And>i. sector' (f i) = sector' i) \<Longrightarrow>
   map (\<lambda>(p, i). sector' i) (open_inodes (update_inode p f st)) = map (\<lambda>(p, i). sector' i) (open_inodes st)"
  by (simp add: update_inode_open split_beta cong: map_cong)

lemma update_entries_set:
  "(q, j) \<in> set (map (\<lambda>(q, i). if q = p then (q, f i) else (q, i)) es) \<longleftrightarrow>
     (\<exists>i. (q, i) \<in> set es \<and> j = (if q = p then f i else i))"
  by (induction es) (auto split: if_splits)

lemma update_inode_set:
  "(q, j) \<in> set (open_inodes (update_inode p f st)) \<longleftrightarrow>
     (\<exists>i. (q, i) \<in> set (open_inodes st) \<and> j = (if q = p then f i else i))"
  unfolding update_inode_open by (rule update_entries_set)

text \<open>Counting an inode of sector \<open>s\<close> up or down, in a well-formed registry.\<close>

lemma registry_ok_count:
  assumes ok: "registry_ok cnt st" and p: "(p, i) \<in> set (open_inodes st)"
    and pos: "0 < open_cnt i + k"
  shows "registry_ok (cnt(sector' i := cnt (sector' i) + k))
           (update_inode p (\<lambda>i. i\<lparr>open_cnt := open_cnt i + k\<rparr>) st)"
proof (rule registry_okI)
  note d = registry_okD [OF ok]
  let ?st' = "update_inode p (\<lambda>i. i\<lparr>open_cnt := open_cnt i + k\<rparr>) st"
  show "distinct (map fst (open_inodes ?st'))" using d(1) by (simp add: update_inode_fst)
  show "distinct (map (\<lambda>(p, i). sector' i) (open_inodes ?st'))"
    using ok by (simp add: update_inode_sectors registry_ok_def)
  show "\<And>q j. (q, j) \<in> set (open_inodes ?st') \<Longrightarrow>
      open_cnt j = (cnt(sector' i := cnt (sector' i) + k)) (sector' j) \<and> 0 < open_cnt j"
  proof -
    fix q j assume "(q, j) \<in> set (open_inodes ?st')"
    then obtain j0 where j0: "(q, j0) \<in> set (open_inodes st)"
      "j = (if q = p then j0\<lparr>open_cnt := open_cnt j0 + k\<rparr> else j0)"
      by (auto simp: update_inode_set)
    show "open_cnt j = (cnt(sector' i := cnt (sector' i) + k)) (sector' j) \<and> 0 < open_cnt j"
    proof (cases "q = p")
      case True
      with j0 d(3) [OF p, of j0] have "j0 = i" by simp
      with True j0 d(4) [OF p] pos show ?thesis by simp
    next
      case False
      with d(2) [OF p j0(1)] have "sector' j0 \<noteq> sector' i" by auto
      with False j0 d(4) [OF j0(1)] show ?thesis by simp
    qed
  qed
  show "\<And>s. (\<And>q j. (q, j) \<in> set (open_inodes ?st') \<Longrightarrow> sector' j \<noteq> s) \<Longrightarrow>
      (cnt(sector' i := cnt (sector' i) + k)) s = 0"
  proof -
    fix s assume a: "\<And>q j. (q, j) \<in> set (open_inodes ?st') \<Longrightarrow> sector' j \<noteq> s"
    have b: "\<And>q j. (q, j) \<in> set (open_inodes st) \<Longrightarrow> sector' j \<noteq> s"
    proof -
      fix q j assume "(q, j) \<in> set (open_inodes st)"
      then have "(q, if q = p then j\<lparr>open_cnt := open_cnt j + k\<rparr> else j) \<in> set (open_inodes ?st')"
        by (auto simp: update_inode_set)
      from a [OF this] show "sector' j \<noteq> s" by (simp split: if_splits)
    qed
    from b [OF p] d(5) [of s] b show "(cnt(sector' i := cnt (sector' i) + k)) s = 0" by simp
  qed
qed

lemma inode_open_again:
  assumes ok: "registry_ok cnt st" and p: "(p, i) \<in> set (open_inodes st)" "sector' i = s"
    and m: "open_cnt i \<noteq> INT_MAX"
  shows "inode_open s st = Inr (Some p, update_inode p (\<lambda>i. i\<lparr>open_cnt := open_cnt i + 1\<rparr>) st)"
proof -
  from ok have d2: "distinct (map (\<lambda>(p, i). sector' i) (open_inodes st))" by (simp add: registry_ok_def)
  from find_open_unique [OF d2 p(1)] p(2) have f: "find_open (open_inodes st) s = Some p" by simp
  from registry_okD(1) [OF ok] p(1) have "map_of (open_inodes st) p = Some i" by simp
  with f m show ?thesis by (simp add: inode_open_def inode_reopen_def)
qed

lemma inode_open_registry:
  assumes ok: "registry_ok cnt st" and op: "inode_open s st = Inr (r, st')"
  shows "registry_ok (if r = None then cnt else cnt(s := cnt s + 1)) st'"
proof (cases "find_open (open_inodes st) s")
  case (Some p)
  from find_open_Some [OF Some] obtain i where i: "(p, i) \<in> set (open_inodes st)" "sector' i = s"
    by blast
  from registry_okD(1) [OF ok] i(1) have mo: "map_of (open_inodes st) p = Some i" by simp
  from op Some mo have r: "r = Some p" "st' = update_inode p (\<lambda>i. i\<lparr>open_cnt := open_cnt i + 1\<rparr>) st"
    by (auto simp: inode_open_def inode_reopen_def split: if_splits)
  from registry_okD(4) [OF ok i(1)] have "0 < open_cnt i + 1" by simp
  from registry_ok_count [OF ok i(1) this] r i(2) show ?thesis by simp
next
  case None
  note d = registry_okD [OF ok]
  from None have nos: "\<And>q j. (q, j) \<in> set (open_inodes st) \<Longrightarrow> sector' j \<noteq> s"
    by (auto simp: find_open_None)
  from d(5) [of s] nos have c0: "cnt s = 0" by simp
  show ?thesis
  proof (cases "heap_slots st = 0")
    case True
    with op None have "r = None" "st' = st" by (auto simp: inode_open_def malloc_inode_def)
    with ok show ?thesis by simp
  next
    case False
    let ?p = "Suc (fold max (map fst (open_inodes st)) 0)"
    let ?st1 = "st\<lparr>heap_slots := heap_slots st - 1\<rparr>"
    obtain buf st2 where rd: "fs_cache_read s ?st1 = (buf, st2)" by (cases "fs_cache_read s ?st1")
    from read_frame(1) [of s ?st1] rd have o2: "open_inodes st2 = open_inodes st" by simp
    let ?new = "\<lparr>sector' = s, open_cnt = 1, removed = False, deny_write_cnt = 0,
                 data' = inode_disk_of_sector buf\<rparr>"
    from op None False rd have r: "r = Some ?p"
      and st': "st' = st2\<lparr>open_inodes := (?p, ?new) # open_inodes st2\<rparr>"
      by (auto simp: inode_open_def malloc_inode_def)
    have es: "open_inodes st' = (?p, ?new) # open_inodes st" unfolding st' using o2 by simp
    have "registry_ok (cnt(s := cnt s + 1)) st'"
    proof (rule registry_okI)
      show "distinct (map fst (open_inodes st'))"
        unfolding es using d(1) fresh_pointer [of "open_inodes st"] by simp
      show "distinct (map (\<lambda>(p, i). sector' i) (open_inodes st'))"
        unfolding es using ok None by (simp add: registry_ok_def find_open_None)
      show "\<And>q j. (q, j) \<in> set (open_inodes st') \<Longrightarrow>
          open_cnt j = (cnt(s := cnt s + 1)) (sector' j) \<and> 0 < open_cnt j"
        unfolding es using c0 d(4) nos by auto
      show "\<And>x. (\<And>q j. (q, j) \<in> set (open_inodes st') \<Longrightarrow> sector' j \<noteq> x) \<Longrightarrow>
          (cnt(s := cnt s + 1)) x = 0"
      proof -
        fix x assume a: "\<And>q j. (q, j) \<in> set (open_inodes st') \<Longrightarrow> sector' j \<noteq> x"
        from a [of ?p ?new] have "x \<noteq> s" unfolding es by auto
        moreover have "cnt x = 0"
        proof (rule d(5))
          fix q j assume "(q, j) \<in> set (open_inodes st)"
          then show "sector' j \<noteq> x" using a [of q j] unfolding es by simp
        qed
        ultimately show "(cnt(s := cnt s + 1)) x = 0" by simp
      qed
    qed
    with r show ?thesis by simp
  qed
qed

lemma inode_close_registry:
  assumes ok: "registry_ok cnt st" and mo: "map_of (open_inodes st) p = Some i"
    and cl: "inode_close (Some p) st = Inr st'"
  shows "registry_ok (cnt(sector' i := cnt (sector' i) - 1)) st'"
proof -
  note d = registry_okD [OF ok]
  from mo have p: "(p, i) \<in> set (open_inodes st)" by (rule map_of_SomeD)
  from d(4) [OF p] have c: "open_cnt i = cnt (sector' i)" "0 < open_cnt i" by simp_all
  then have nm: "open_cnt i \<noteq> INT_MIN" by (simp add: INT_MIN_def)
  show ?thesis
  proof (cases "open_cnt i - 1 = 0")
    case False
    with cl mo nm have st': "st' = update_inode p (\<lambda>i. i\<lparr>open_cnt := open_cnt i + (- 1)\<rparr>) st"
      by (simp add: inode_close_def)
    from False c have "0 < open_cnt i + (- 1)" by simp
    from registry_ok_count [OF ok p this] st' show ?thesis by simp
  next
    case True
    let ?es = "filter (\<lambda>(q, i). q \<noteq> p) (open_inodes st)"
    let ?st1 = "st\<lparr>open_inodes := ?es\<rparr>"
    have es: "open_inodes st' = ?es"
    proof (cases "removed i")
      case False
      with cl mo nm True have "st' = free_inode ?st1" by (simp add: inode_close_def)
      then show ?thesis by (simp add: free_inode_def)
    next
      case r: True
      with cl mo nm True obtain b st2 where
        dl: "inode_deallocate i (free_map_release (sector' i) ?st1) = Inr (b, st2)"
        and st': "st' = free_inode st2"
        by (auto simp: inode_close_def Let_def split: sum.splits)
      from inode_deallocate_open [OF dl] st' show ?thesis
        by (simp add: free_inode_def free_map_release_def)
    qed
    have mem: "\<And>q j. (q, j) \<in> set ?es \<longleftrightarrow> (q, j) \<in> set (open_inodes st) \<and> q \<noteq> p" by auto
    show ?thesis
    proof (rule registry_okI)
      show "distinct (map fst (open_inodes st'))"
        unfolding es using d(1) by (rule distinct_map_filter)
      show "distinct (map (\<lambda>(p, i). sector' i) (open_inodes st'))"
        unfolding es using ok by (intro distinct_map_filter) (simp add: registry_ok_def)
      show "\<And>q j. (q, j) \<in> set (open_inodes st') \<Longrightarrow>
          open_cnt j = (cnt(sector' i := cnt (sector' i) - 1)) (sector' j) \<and> 0 < open_cnt j"
      proof -
        fix q j assume "(q, j) \<in> set (open_inodes st')"
        then have qj: "(q, j) \<in> set (open_inodes st)" "q \<noteq> p" unfolding es by auto
        with d(2) [OF p qj(1)] have "sector' j \<noteq> sector' i" by auto
        with d(4) [OF qj(1)]
        show "open_cnt j = (cnt(sector' i := cnt (sector' i) - 1)) (sector' j) \<and> 0 < open_cnt j"
          by simp
      qed
      show "\<And>x. (\<And>q j. (q, j) \<in> set (open_inodes st') \<Longrightarrow> sector' j \<noteq> x) \<Longrightarrow>
          (cnt(sector' i := cnt (sector' i) - 1)) x = 0"
      proof -
        fix x assume a: "\<And>q j. (q, j) \<in> set (open_inodes st') \<Longrightarrow> sector' j \<noteq> x"
        show "(cnt(sector' i := cnt (sector' i) - 1)) x = 0"
        proof (cases "x = sector' i")
          case True
          with c \<open>open_cnt i - 1 = 0\<close> show ?thesis by simp
        next
          case False
          have "cnt x = 0"
          proof (rule d(5))
            fix q j assume qj: "(q, j) \<in> set (open_inodes st)"
            show "sector' j \<noteq> x"
            proof (cases "q = p")
              case True
              with d(3) [OF p, of j] qj have "j = i" by simp
              with False show ?thesis by simp
            next
              case False
              with qj have "(q, j) \<in> set (open_inodes st')" unfolding es by simp
              then show ?thesis by (rule a)
            qed
          qed
          with False show ?thesis by simp
        qed
      qed
    qed
  qed
qed

lemma inode_step_registry:
  assumes "registry_ok cnt st" and "inode_step op (cnt, st) = Inr (cnt', st')"
  shows "registry_ok cnt' st'"
proof (cases op)
  case (Open s)
  with assms(2) obtain r where o: "inode_open s st = Inr (r, st')"
    and c: "cnt' = (if r = None then cnt else cnt(s := cnt s + 1))"
    by (auto split: sum.splits option.splits)
  from inode_open_registry [OF assms(1) o] c show ?thesis by simp
next
  case (Close p)
  with assms(2) obtain i where mo: "map_of (open_inodes st) p = Some i"
    and cl: "inode_close (Some p) st = Inr st'"
    and c: "cnt' = cnt(sector' i := cnt (sector' i) - 1)"
    by (auto split: sum.splits option.splits)
  from inode_close_registry [OF assms(1) mo cl] c show ?thesis by simp
qed

lemma run_inode_ops_registry:
  "registry_ok cnt st \<Longrightarrow> run_inode_ops ops (cnt, st) = Inr (cnt', st') \<Longrightarrow> registry_ok cnt' st'"
proof (induction ops arbitrary: cnt st)
  case Nil
  then show ?case by simp
next
  case (Cons op ops)
  from Cons.prems(2) obtain c1 s1 where s: "inode_step op (cnt, st) = Inr (c1, s1)"
    and r: "run_inode_ops ops (c1, s1) = Inr (cnt', st')"
    by (auto split: sum.splits)
  from Cons.IH [OF inode_step_registry [OF Cons.prems(1) s] r] show ?case .
qed

lemma init_state_fields:
  "open_inodes init_state = []" "heap_slots init_state = 16"
  "free_sectors init_state = map of_nat [2..<300]" "clock init_state = 0"
  "fs_device init_state = (\<lambda>_. zero_sector)"
  by (simp_all add: init_state_def fs_cache_init_def)

lemma init_state_wf: "cache_wf init_state"
  by (simp add: cache_wf_def init_state_def fs_cache_init_def static_cache_def CACHE_SIZE_def)

text \<open>
  Claim C9 (identity map). Run any sequence of opens and closes after \<^verbatim>\<open>inode_init\<close>,
  \<open>cnt\<close> counting per sector the opens that returned a handle minus the closes of
  a handle of that sector. If the run gets through (no close of a dangling handle, no
  overflow of a counter), then in the state it reaches no two entries of \<open>open_inodes\<close>
  have the same sector or the same address, every entry's \<^verbatim>\<open>open_cnt\<close> is the count of
  its sector, and \<^verbatim>\<open>inode_open\<close> of the sector of an entry returns that entry's address
  and changes nothing but that entry's \<^verbatim>\<open>open_cnt\<close>, which goes up by one.
\<close>

theorem identity_map:
  assumes "run_inode_ops ops (\<lambda>_. 0, inode_init st) = Inr (cnt, st')"
  shows "distinct (map (\<lambda>(p, i). sector' i) (open_inodes st')) \<and>
         distinct (map fst (open_inodes st')) \<and>
         list_all (\<lambda>(p, i). open_cnt i = cnt (sector' i)) (open_inodes st') \<and>
         (\<forall>p i. (p, i) \<in> set (open_inodes st') \<and> open_cnt i \<noteq> INT_MAX \<longrightarrow>
            inode_open (sector' i) st' =
              Inr (Some p, update_inode p (\<lambda>i. i\<lparr>open_cnt := open_cnt i + 1\<rparr>) st'))"
proof -
  have "registry_ok (\<lambda>_. 0) (inode_init st)" by (simp add: registry_ok_def inode_init_def)
  from run_inode_ops_registry [OF this assms] have ok: "registry_ok cnt st'" .
  then have "distinct (map (\<lambda>(p, i). sector' i) (open_inodes st'))"
    "distinct (map fst (open_inodes st'))"
    "list_all (\<lambda>(p, i). open_cnt i = cnt (sector' i)) (open_inodes st')"
    by (auto simp: registry_ok_def list_all_iff)
  moreover have "\<forall>p i. (p, i) \<in> set (open_inodes st') \<and> open_cnt i \<noteq> INT_MAX \<longrightarrow>
      inode_open (sector' i) st' =
        Inr (Some p, update_inode p (\<lambda>i. i\<lparr>open_cnt := open_cnt i + 1\<rparr>) st')"
    using inode_open_again [OF ok] by blast
  ultimately show ?thesis by blast
qed

lemma inode_init_init_state: "inode_init init_state = init_state"
  by (simp add: inode_init_def init_state_def fs_cache_init_def)

lemma identity_map_run:
  "\<exists>cnt st'. run_inode_ops [Open 3, Open 3, Open 5, Close 1] (\<lambda>_. 0, inode_init init_state)
       = Inr (cnt, st') \<and>
     map (\<lambda>(p, i). (p, sector' i, open_cnt i)) (open_inodes st') = [(2, 5, 1), (1, 3, 1)] \<and>
     cnt 3 = 1 \<and> cnt 5 = 1"
  unfolding inode_init_init_state
  by (simp add: inode_open_def inode_reopen_def inode_close_def malloc_inode_def update_inode_def
      init_state_fields read_frame split_beta INT_MAX_def INT_MIN_def)

theorem identity_map_witness:
  "(case run_inode_ops [Open 3, Open 3, Open 5, Close 1] (\<lambda>_. 0, inode_init init_state) of
      Inl e \<Rightarrow> False
    | Inr (cnt, st') \<Rightarrow>
        map (\<lambda>(p, i). (p, sector' i, open_cnt i)) (open_inodes st') = [(2, 5, 1), (1, 3, 1)] \<and>
        cnt 3 = 1 \<and> cnt 5 = 1 \<and>
        distinct (map (\<lambda>(p, i). sector' i) (open_inodes st')) \<and>
        distinct (map fst (open_inodes st')) \<and>
        list_all (\<lambda>(p, i). open_cnt i = cnt (sector' i)) (open_inodes st') \<and>
        inode_open 3 st' = Inr (Some 1, update_inode 1 (\<lambda>i. i\<lparr>open_cnt := open_cnt i + 1\<rparr>) st'))"
proof -
  from identity_map_run obtain cnt st' where
    r: "run_inode_ops [Open 3, Open 3, Open 5, Close 1] (\<lambda>_. 0, inode_init init_state)
          = Inr (cnt, st')"
    and e: "map (\<lambda>(p, i). (p, sector' i, open_cnt i)) (open_inodes st') = [(2, 5, 1), (1, 3, 1)]"
    and c: "cnt 3 = 1" "cnt 5 = 1"
    by (elim exE conjE)
  note t = identity_map [OF r]
  from e obtain i where i: "(1, i) \<in> set (open_inodes st')" "sector' i = 3" "open_cnt i = 1"
    by (cases "open_inodes st'") (auto split: prod.splits)
  from t have "\<forall>p i. (p, i) \<in> set (open_inodes st') \<and> open_cnt i \<noteq> INT_MAX \<longrightarrow>
      inode_open (sector' i) st' =
        Inr (Some p, update_inode p (\<lambda>i. i\<lparr>open_cnt := open_cnt i + 1\<rparr>) st')"
    by blast
  from this [rule_format, of 1 i] i have "inode_open 3 st' =
      Inr (Some 1, update_inode 1 (\<lambda>i. i\<lparr>open_cnt := open_cnt i + 1\<rparr>) st')"
    by (simp add: INT_MAX_def)
  with t r e c show ?thesis by simp
qed

theorem write_past_end_panics_witness:
  "deny_write_cnt one_sector_inode = 0 \<and> (0 :: 32 word) <s 1 \<and>
   byte_to_sector one_sector_inode (512 + 1 - 1) init_state = Inr (- 1, init_state) \<and>
   \<not> (0 \<le>s (512 :: 32 word) + 1 - 1 \<and> (512 :: 32 word) + 1 - 1 <s inode_length one_sector_inode) \<and>
   inode_write_at one_sector_inode True [65] 1 512 init_state = Inl PANIC"
proof -
  have a: "deny_write_cnt one_sector_inode = 0" by (simp add: one_sector_inode_def)
  have b: "(0 :: 32 word) <s 1" by (simp add: word_sless_alt)
  have c: "byte_to_sector one_sector_inode (512 + 1 - 1) init_state = Inr (- 1, init_state)"
    by (simp add: byte_to_sector_def one_sector_inode_def)
  have d: "\<not> (0 \<le>s (512 :: 32 word) + 1 - 1 \<and> (512 :: 32 word) + 1 - 1 <s inode_length one_sector_inode)"
    by (simp add: inode_length_def one_sector_inode_def)
  note t = write_past_end_panics [OF a b, of 512 init_state True "[65]"]
  from t c have "inode_write_at one_sector_inode True [65] 1 512 init_state = Inl PANIC" by blast
  with a b c d show ?thesis by blast
qed

text \<open>What the allocation engine takes from the allocator.\<close>

lemma allocate_zeroed_free:
  "free_sectors (snd (allocate_zeroed e st)) = drop 1 (free_sectors st)"
  by (cases "free_sectors st")
     (simp_all add: allocate_zeroed_def free_map_allocate_def write_frame split_beta)

lemma allocate_direct_props:
  "free_sectors (snd (allocate_direct i l d st)) = drop (l - i) (free_sectors st) \<and>
   indirect_block (fst (allocate_direct i l d st)) = indirect_block d \<and>
   double_indirect_block (fst (allocate_direct i l d st)) = double_indirect_block d \<and>
   length' (fst (allocate_direct i l d st)) = length' d"
proof (induction i l d st rule: allocate_direct.induct)
  case (1 i l d st)
  show ?case
  proof (cases "i < l")
    case False
    then show ?thesis by (subst (1 2 3 4) allocate_direct.simps) simp
  next
    case True
    obtain s st1 where a: "allocate_zeroed (direct_blocks d ! i) st = (s, st1)"
      by (cases "allocate_zeroed (direct_blocks d ! i) st")
    from allocate_zeroed_free [of "direct_blocks d ! i" st] a
    have f: "free_sectors st1 = drop 1 (free_sectors st)" by simp
    from True have e: "Suc (l - Suc i) = l - i" by simp
    from "1.IH" [OF True a [symmetric] refl] True a f show ?thesis
      by (subst (1 2 3 4) allocate_direct.simps) (simp add: e [symmetric] del: drop_Suc)
  qed
qed

lemma allocate_entries_leaf:
  "(\<And>e k s. sub e k s = Inr (allocate_zeroed e s)) \<Longrightarrow> l \<le> INDIRECT_BLOCKS \<Longrightarrow>
   \<exists>blocks' st'. allocate_entries sub n i l nsectors blocks st = Inr (blocks', st') \<and>
      free_sectors st' = drop (l - i) (free_sectors st)"
proof (induction sub n i l nsectors blocks st rule: allocate_entries.induct)
  case (1 sub n i l nsectors blocks st)
  note sub = "1.prems"(1)
  show ?case
  proof (cases "i < l")
    case False
    then show ?thesis by (subst allocate_entries.simps) simp
  next
    case True
    with "1.prems" have ib: "i < INDIRECT_BLOCKS" by simp
    obtain b st1 where a: "allocate_zeroed (blocks ! i) st = (b, st1)"
      by (cases "allocate_zeroed (blocks ! i) st")
    then have s: "sub (blocks ! i) (min nsectors n) st = Inr (b, st1)" by (simp add: sub)
    from allocate_zeroed_free [of "blocks ! i" st] a
    have f: "free_sectors st1 = drop 1 (free_sectors st)" by simp
    from "1.IH" [OF True ib s refl sub "1.prems"(2)] obtain blocks' st' where
      r: "allocate_entries sub n (Suc i) l (nsectors - min nsectors n) (blocks[i := b]) st1
            = Inr (blocks', st')"
      and fr: "free_sectors st' = drop (l - Suc i) (free_sectors st1)"
      by blast
    from True have e: "Suc (l - Suc i) = l - i" by simp
    have "allocate_entries sub n i l nsectors blocks st = Inr (blocks', st')"
      using True ib s r by (subst allocate_entries.simps) simp
    moreover have "free_sectors st' = drop (l - i) (free_sectors st)"
      unfolding fr f e [symmetric] by simp
    ultimately show ?thesis by blast
  qed
qed

lemma inode_allocate_indirect_1:
  assumes "l \<le> INDIRECT_BLOCKS"
  shows "\<exists>e' st'. inode_allocate_indirect e l 1 st = Inr (e', st') \<and>
           free_sectors st' = drop (l + (if e = 0 then 1 else 0)) (free_sectors st)"
proof -
  obtain e1 st1 where a: "(if e = 0 then allocate_zeroed e st else (e, st)) = (e1, st1)"
    by (cases "if e = 0 then allocate_zeroed e st else (e, st)")
  then have f1: "free_sectors st1 = drop (if e = 0 then 1 else 0) (free_sectors st)"
    using allocate_zeroed_free [of e st] by (auto split: if_splits)
  obtain buf st2 where r: "fs_cache_read e1 st1 = (buf, st2)" by (cases "fs_cache_read e1 st1")
  then have f2: "free_sectors st2 = free_sectors st1" using read_frame(2) [of e1 st1] by simp
  from assms have "DIV_ROUND_UP l 1 \<le> INDIRECT_BLOCKS" by (simp add: DIV_ROUND_UP_def)
  from allocate_entries_leaf [of "\<lambda>e k s. inode_allocate_indirect e k 0 s", OF _ this,
      of 1 0 l "indirect_block_of_sector buf" st2]
  obtain blocks' st3 where
    al: "allocate_entries (\<lambda>e k s. inode_allocate_indirect e k 0 s) 1 0 (DIV_ROUND_UP l 1) l
           (indirect_block_of_sector buf) st2 = Inr (blocks', st3)"
    and f3: "free_sectors st3 = drop (DIV_ROUND_UP l 1) (free_sectors st2)"
    by auto
  have "inode_allocate_indirect e l (Suc 0) st =
      Inr (e1, fs_cache_write e1 (bytes_of_words blocks') st3)"
    using a r al by (simp del: inode_allocate_indirect.simps(1) add: Let_def)
  moreover have "free_sectors (fs_cache_write e1 (bytes_of_words blocks') st3) =
      drop (l + (if e = 0 then 1 else 0)) (free_sectors st)"
    using f1 f2 f3 by (simp add: write_frame DIV_ROUND_UP_def add.commute)
  ultimately show ?thesis by simp
qed

lemma inode_allocate_253:
  assumes neg: "\<not> length' d <s 0" and n: "bytes_to_sectors (length' d) = 253"
  shows "\<exists>d' st' k. inode_allocate d st = Inr (True, d', st') \<and>
           double_indirect_block d' = double_indirect_block d \<and> length' d' = length' d \<and>
           k \<le> 255 \<and> free_sectors st' = drop k (free_sectors st)"
proof -
  obtain d1 st1 where a1: "allocate_direct 0 124 d st = (d1, st1)"
    by (cases "allocate_direct 0 124 d st")
  from allocate_direct_props [of 0 124 d st] a1
  have p1: "free_sectors st1 = drop 124 (free_sectors st)"
    "double_indirect_block d1 = double_indirect_block d" "length' d1 = length' d"
    by simp_all
  from inode_allocate_indirect_1 [of 128 "indirect_block d1" st1]
  obtain e2 st2 where a2: "inode_allocate_indirect (indirect_block d1) 128 1 st1 = Inr (e2, st2)"
    and p2: "free_sectors st2 = drop (128 + (if indirect_block d1 = 0 then 1 else 0)) (free_sectors st1)"
    by (auto simp: INDIRECT_BLOCKS_def)
  from inode_allocate_indirect_1 [of 1 e2 st2]
  obtain e3 st3 where a3: "inode_allocate_indirect e2 1 1 st2 = Inr (e3, st3)"
    and p3: "free_sectors st3 = drop (1 + (if e2 = 0 then 1 else 0)) (free_sectors st2)"
    by (auto simp: INDIRECT_BLOCKS_def)
  have r: "inode_allocate d st = Inr (True, d1\<lparr>indirect_block := e3\<rparr>, st3)"
    using neg n a1 a2 a3
    by (simp add: inode_allocate_def Let_def DIRECT_BLOCKS_def INDIRECT_BLOCKS_def
        DOUBLE_INDIRECT_BLOCKS_def del: inode_allocate_indirect.simps)
  let ?k = "1 + (if e2 = 0 then 1 else 0) + (128 + (if indirect_block d1 = 0 then 1 else 0) + 124) :: nat"
  have "free_sectors st3 = drop ?k (free_sectors st)"
    unfolding p3 p2 p1 by (simp only: drop_drop)
  moreover have "?k \<le> 255" by simp
  moreover have "double_indirect_block (d1\<lparr>indirect_block := e3\<rparr>) = double_indirect_block d"
    "length' (d1\<lparr>indirect_block := e3\<rparr>) = length' d"
    using p1 by simp_all
  ultimately show ?thesis using r by blast
qed

text \<open>What deallocation gives back to the allocator.\<close>

lemma deallocate_direct_free:
  "length (free_sectors (deallocate_direct i l d st)) = length (free_sectors st) + (l - i)"
proof (induction i l d st rule: deallocate_direct.induct)
  case (1 i l d st)
  show ?case
  proof (cases "i < l")
    case True
    with "1.IH" show ?thesis
      by (subst deallocate_direct.simps) (simp add: free_map_release_def)
  next
    case False
    then show ?thesis by (subst deallocate_direct.simps) simp
  qed
qed

lemma deallocate_entries_leaf:
  "(\<And>e k s. sub e k s = Inr (free_map_release e s)) \<Longrightarrow> l \<le> INDIRECT_BLOCKS \<Longrightarrow>
   \<exists>st'. deallocate_entries sub n i l nsectors blocks st = Inr st' \<and>
      length (free_sectors st') = length (free_sectors st) + (l - i)"
proof (induction sub n i l nsectors blocks st rule: deallocate_entries.induct)
  case (1 sub n i l nsectors blocks st)
  note sub = "1.prems"(1)
  show ?case
  proof (cases "i < l")
    case False
    then show ?thesis by (subst deallocate_entries.simps) simp
  next
    case True
    with "1.prems" have ib: "i < INDIRECT_BLOCKS" by simp
    have s: "sub (blocks ! i) (min nsectors n) st = Inr (free_map_release (blocks ! i) st)"
      by (rule sub)
    from "1.IH" [OF True ib s sub "1.prems"(2)] obtain st' where
      r: "deallocate_entries sub n (Suc i) l (nsectors - min nsectors n) blocks
            (free_map_release (blocks ! i) st) = Inr st'"
      and fr: "length (free_sectors st') =
               length (free_sectors (free_map_release (blocks ! i) st)) + (l - Suc i)"
      by blast
    have "deallocate_entries sub n i l nsectors blocks st = Inr st'"
      using True ib s r by (subst deallocate_entries.simps) simp
    moreover have "length (free_sectors st') = length (free_sectors st) + (l - i)"
      using fr True by (simp add: free_map_release_def)
    ultimately show ?thesis by blast
  qed
qed

lemma inode_deallocate_indirect_1:
  assumes "l \<le> INDIRECT_BLOCKS"
  shows "\<exists>st'. inode_deallocate_indirect e l 1 st = Inr st' \<and>
           length (free_sectors st') = length (free_sectors st) + l + 1"
proof -
  obtain buf st1 where r: "fs_cache_read e st = (buf, st1)" by (cases "fs_cache_read e st")
  then have f1: "free_sectors st1 = free_sectors st" using read_frame(2) [of e st] by simp
  from assms have "DIV_ROUND_UP l 1 \<le> INDIRECT_BLOCKS" by (simp add: DIV_ROUND_UP_def)
  from deallocate_entries_leaf [of "\<lambda>e k s. inode_deallocate_indirect e k 0 s", OF _ this,
      of 1 0 l "indirect_block_of_sector buf" st1]
  obtain st2 where
    dl: "deallocate_entries (\<lambda>e k s. inode_deallocate_indirect e k 0 s) 1 0 (DIV_ROUND_UP l 1) l
           (indirect_block_of_sector buf) st1 = Inr st2"
    and f2: "length (free_sectors st2) = length (free_sectors st1) + DIV_ROUND_UP l 1"
    by auto
  have "inode_deallocate_indirect e l (Suc 0) st = Inr (free_map_release e st2)"
    using r dl by (simp del: inode_deallocate_indirect.simps(1) add: Let_def)
  moreover have "length (free_sectors (free_map_release e st2)) = length (free_sectors st) + l + 1"
    using f1 f2 by (simp add: free_map_release_def DIV_ROUND_UP_def)
  ultimately show ?thesis by simp
qed

lemma inode_deallocate_indirect_2_one:
  "\<exists>st'. inode_deallocate_indirect e 1 2 st = Inr st' \<and>
     length (free_sectors st') = length (free_sectors st) + 3"
proof -
  obtain buf st1 where r: "fs_cache_read e st = (buf, st1)" by (cases "fs_cache_read e st")
  then have f1: "free_sectors st1 = free_sectors st" using read_frame(2) [of e st] by simp
  let ?sub = "\<lambda>e k s. inode_deallocate_indirect e k (Suc 0) s"
  let ?blocks = "indirect_block_of_sector buf"
  from inode_deallocate_indirect_1 [of 1 "?blocks ! 0" st1]
  obtain st2 where s: "inode_deallocate_indirect (?blocks ! 0) 1 (Suc 0) st1 = Inr st2"
    and f2: "length (free_sectors st2) = length (free_sectors st1) + 1 + 1"
    by (auto simp: INDIRECT_BLOCKS_def simp del: inode_deallocate_indirect.simps)
  have l: "DIV_ROUND_UP 1 INDIRECT_BLOCKS = 1" by (simp add: DIV_ROUND_UP_def INDIRECT_BLOCKS_def)
  have "deallocate_entries ?sub INDIRECT_BLOCKS 0 1 1 ?blocks st1 =
        deallocate_entries ?sub INDIRECT_BLOCKS 1 1 (1 - min 1 INDIRECT_BLOCKS) ?blocks st2"
    using s by (subst deallocate_entries.simps)
      (simp add: INDIRECT_BLOCKS_def del: inode_deallocate_indirect.simps)
  also have "\<dots> = Inr st2" by (subst deallocate_entries.simps) simp
  finally have dl: "deallocate_entries ?sub INDIRECT_BLOCKS 0 1 1 ?blocks st1 = Inr st2" .
  have "inode_deallocate_indirect e 1 (Suc (Suc 0)) st = Inr (free_map_release e st2)"
    using r dl l
    by (simp del: inode_deallocate_indirect.simps
        add: inode_deallocate_indirect.simps(2) [of e "Suc 0" "Suc 0" st] Let_def)
  then have "inode_deallocate_indirect e 1 2 st = Inr (free_map_release e st2)"
    by (simp add: numeral_2_eq_2)
  moreover have "length (free_sectors (free_map_release e st2)) = length (free_sectors st) + 3"
    using f1 f2 by (simp add: free_map_release_def)
  ultimately show ?thesis by simp
qed

lemma inode_deallocate_253:
  assumes neg: "\<not> length' (data' inode) <s 0" and n: "bytes_to_sectors (length' (data' inode)) = 253"
  shows "\<exists>st'. inode_deallocate inode st = Inr (True, st') \<and>
           length (free_sectors st') = length (free_sectors st) + 256"
proof -
  let ?st1 = "deallocate_direct 0 124 (data' inode) st"
  have f1: "length (free_sectors ?st1) = length (free_sectors st) + 124"
    using deallocate_direct_free [of 0 124 "data' inode" st] by simp
  from inode_deallocate_indirect_1 [of 128 "indirect_block (data' inode)" ?st1]
  obtain st2 where a2: "inode_deallocate_indirect (indirect_block (data' inode)) 128 1 ?st1 = Inr st2"
    and f2: "length (free_sectors st2) = length (free_sectors ?st1) + 128 + 1"
    by (auto simp: INDIRECT_BLOCKS_def)
  from inode_deallocate_indirect_2_one [of "double_indirect_block (data' inode)" st2]
  obtain st3 where a3: "inode_deallocate_indirect (double_indirect_block (data' inode)) 1 2 st2 = Inr st3"
    and f3: "length (free_sectors st3) = length (free_sectors st2) + 3"
    by auto
  have "inode_deallocate inode st = Inr (True, st3)"
    using neg n a2 a3
    by (simp add: inode_deallocate_def Let_def DIRECT_BLOCKS_def INDIRECT_BLOCKS_def
        DOUBLE_INDIRECT_BLOCKS_def del: inode_deallocate_indirect.simps)
  with f1 f2 f3 show ?thesis by simp
qed

lemma bytes_to_sectors_129536: "bytes_to_sectors 129536 = 253"
  by (simp add: bytes_to_sectors_def c_div_def)

lemma inode_allocate_double_indirect:
  "inode_allocate d st = Inr (ok, d', st') \<Longrightarrow> double_indirect_block d' = double_indirect_block d"
proof -
  assume a: "inode_allocate d st = Inr (ok, d', st')"
  obtain d1 st1 where a1:
    "allocate_direct 0 (min (bytes_to_sectors (length' d)) DIRECT_BLOCKS) d st = (d1, st1)"
    by (cases "allocate_direct 0 (min (bytes_to_sectors (length' d)) DIRECT_BLOCKS) d st")
  from allocate_direct_props [of 0 "min (bytes_to_sectors (length' d)) DIRECT_BLOCKS" d st] a1
  have p1: "double_indirect_block d1 = double_indirect_block d" by simp
  from a a1 p1 show ?thesis
    by (auto simp: inode_allocate_def Let_def simp del: inode_allocate_indirect.simps
        split: if_splits sum.splits)
qed

text \<open>
  Claim C1, at the failing input: \<^verbatim>\<open>inode_create\<close> of 129536 bytes (124 + 128 + 1
  sectors). \<^verbatim>\<open>inode_allocate\<close> on the zeroed inode record of that length succeeds from
  every state and leaves \<^verbatim>\<open>double_indirect_block\<close> zero: no double-indirect block and no
  child block come to be. Its third step calls
  \<^verbatim>\<open>inode_allocate_indirect (&disk_inode->indirect_block, l, 1)\<close> as the second does.
\<close>

theorem allocate_253_leaves_double_indirect_zero:
  "\<exists>d' st'. inode_allocate (calloc_inode_disk\<lparr>length' := 129536, magic := INODE_MAGIC\<rparr>) st
       = Inr (True, d', st') \<and>
     double_indirect_block d' = 0 \<and> length' d' = 129536"
proof -
  let ?d = "calloc_inode_disk\<lparr>length' := 129536, magic := INODE_MAGIC\<rparr>"
  have neg: "\<not> length' ?d <s 0" by (simp add: word_sless_alt)
  have n: "bytes_to_sectors (length' ?d) = 253" by (simp add: bytes_to_sectors_129536)
  from inode_allocate_253 [OF neg n, of st] show ?thesis
    by (auto simp: calloc_inode_disk_def)
qed

text \<open>
  Claim C2, at the same failing input. Allocation of 253 sectors followed by
  \<^verbatim>\<open>inode_deallocate\<close> of the record it filled in both succeed from every state, and the
  allocator ends up holding more sectors than it held before the allocation:
  \<^verbatim>\<open>inode_deallocate\<close> releases 256 sectors (124 direct, 128 + 1 under
  \<^verbatim>\<open>indirect_block\<close>, 1 + 1 + 1 under \<^verbatim>\<open>double_indirect_block\<close>), the allocation
  obtained at most 255. The sectors released are not the sectors obtained.
\<close>

theorem deallocate_253_releases_more_than_allocated:
  "\<exists>d' st' st''.
     inode_allocate (calloc_inode_disk\<lparr>length' := 129536, magic := INODE_MAGIC\<rparr>) st
       = Inr (True, d', st') \<and>
     inode_deallocate \<lparr>sector' = sec, open_cnt = 0, removed = True, deny_write_cnt = 0, data' = d'\<rparr> st'
       = Inr (True, st'') \<and>
     length (free_sectors st) < length (free_sectors st'')"
proof -
  let ?d = "calloc_inode_disk\<lparr>length' := 129536, magic := INODE_MAGIC\<rparr>"
  have neg: "\<not> length' ?d <s 0" by (simp add: word_sless_alt)
  have n: "bytes_to_sectors (length' ?d) = 253" by (simp add: bytes_to_sectors_129536)
  from inode_allocate_253 [OF neg n, of st] obtain d' st' k where
    a: "inode_allocate ?d st = Inr (True, d', st')" and l: "length' d' = length' ?d"
    and k: "k \<le> 255" "free_sectors st' = drop k (free_sectors st)"
    by blast
  let ?i = "\<lparr>sector' = sec, open_cnt = 0, removed = True, deny_write_cnt = 0, data' = d'\<rparr>"
  have neg': "\<not> length' (data' ?i) <s 0" using l by (simp add: word_sless_alt)
  have n': "bytes_to_sectors (length' (data' ?i)) = 253" using l n by simp
  from inode_deallocate_253 [OF neg' n', of st'] obtain st'' where
    d: "inode_deallocate ?i st' = Inr (True, st'')"
    and f: "length (free_sectors st'') = length (free_sectors st') + 256"
    by blast
  from f k have "length (free_sectors st) < length (free_sectors st'')" by simp
  with a d show ?thesis by blast
qed

declare inode_read_loop.simps [simp del]

declare inode_write_loop.simps [simp del]

text \<open>A struct written to a sector and read back.\<close>

lemma bytes_to_word_to_bytes:
  "bytes_to_word (ucast w) (ucast (drop_bit 8 w)) (ucast (drop_bit 16 w)) (ucast (drop_bit 24 w)) = w"
  unfolding bytes_to_word_def
proof (rule bit_word_eqI)
  fix n assume n: "n < LENGTH(32)"
  consider "n < 8" | "8 \<le> n" "n < 16" | "16 \<le> n" "n < 24" | "24 \<le> n" by linarith
  then show "bit (ucast (ucast w :: 8 word) OR push_bit 8 (ucast (ucast (drop_bit 8 w) :: 8 word)) OR
      push_bit 16 (ucast (ucast (drop_bit 16 w) :: 8 word)) OR
      push_bit 24 (ucast (ucast (drop_bit 24 w) :: 8 word)) :: 32 word) n = bit w n"
    using n by cases (auto simp: bit_simps)
qed

lemma words_of_bytes_of_words: "words_of_bytes (bytes_of_words ws) = ws"
  by (induction ws) (simp_all add: bytes_of_words_def word_to_bytes_def bytes_to_word_to_bytes)

lemma length_bytes_of_words: "length (bytes_of_words ws) = 4 * length ws"
  by (induction ws) (simp_all add: bytes_of_words_def word_to_bytes_def)

lemma inode_disk_roundtrip:
  assumes "length (direct_blocks d) = DIRECT_BLOCKS"
  shows "inode_disk_of_sector (take BLOCK_SECTOR_SIZE (sector_of_inode_disk d)) = d"
proof -
  have "length (sector_of_inode_disk d) = BLOCK_SECTOR_SIZE"
    using assms
    by (simp add: sector_of_inode_disk_def length_bytes_of_words DIRECT_BLOCKS_def BLOCK_SECTOR_SIZE_def)
  then have "take BLOCK_SECTOR_SIZE (sector_of_inode_disk d) = sector_of_inode_disk d" by simp
  then show ?thesis
    using assms
    by (simp add: inode_disk_of_sector_def sector_of_inode_disk_def words_of_bytes_of_words
        Let_def nth_append DIRECT_BLOCKS_def)
qed

text \<open>The cache invariant and the cached content do not depend on the rest of the state.\<close>

lemma cache_wf_fields [simp]:
  "cache_wf (st\<lparr>free_sectors := a\<rparr>) = cache_wf st"
  "cache_wf (st\<lparr>open_inodes := b\<rparr>) = cache_wf st"
  "cache_wf (st\<lparr>heap_slots := c\<rparr>) = cache_wf st"
  by (simp_all add: cache_wf_def)

lemma cache_content_fields [simp]:
  "cache_content (st\<lparr>free_sectors := a\<rparr>) = cache_content st"
  "cache_content (st\<lparr>open_inodes := b\<rparr>) = cache_content st"
  "cache_content (st\<lparr>heap_slots := c\<rparr>) = cache_content st"
  by (simp_all add: cache_content_def fs_cache_find_def fun_eq_iff split: option.splits)

lemma take_zero_sector [simp]: "take BLOCK_SECTOR_SIZE zero_sector = zero_sector"
  by (simp add: zero_sector_def)

text \<open>Every allocation site zeroes the sector it has obtained.\<close>

lemma allocate_zeroed_content:
  assumes "cache_wf st" and "allocate_zeroed e st = (e', st')"
  shows "cache_wf st'" and "cache_content st' e' = zero_sector"
    and "free_sectors st \<noteq> [] \<Longrightarrow> e' = hd (free_sectors st)"
proof -
  obtain r st1 where f: "free_map_allocate st = (r, st1)" by (cases "free_map_allocate st")
  then have wf1: "cache_wf st1"
    using assms(1) by (auto simp: free_map_allocate_def split: list.splits)
  from assms(2) f have e: "e' = (case r of Some s \<Rightarrow> s | None \<Rightarrow> e)"
    and st': "st' = fs_cache_write e' zero_sector st1"
    by (auto simp: allocate_zeroed_def Let_def)
  from fs_cache_write_props(1) [OF wf1] st' show "cache_wf st'" by simp
  from fs_cache_write_props(2) [OF wf1, of e' zero_sector e'] st'
  show "cache_content st' e' = zero_sector" by simp
  show "free_sectors st \<noteq> [] \<Longrightarrow> e' = hd (free_sectors st)"
    using f e by (auto simp: free_map_allocate_def split: list.splits)
qed

lemma bytes_to_sectors_512: "bytes_to_sectors 512 = 1"
  by (simp add: bytes_to_sectors_def c_div_def)

lemma inode_allocate_one_sector:
  assumes "length' d = 512" and "free_sectors st = s # rest"
  shows "inode_allocate d st =
           Inr (True, d\<lparr>direct_blocks := (direct_blocks d)[0 := s]\<rparr>,
                fs_cache_write s zero_sector (st\<lparr>free_sectors := rest\<rparr>))"
proof -
  have z: "allocate_zeroed (direct_blocks d ! 0) st =
      (s, fs_cache_write s zero_sector (st\<lparr>free_sectors := rest\<rparr>))"
    using assms(2) by (simp add: allocate_zeroed_def free_map_allocate_def)
  have "allocate_direct 0 1 d st =
      allocate_direct 1 1 (d\<lparr>direct_blocks := (direct_blocks d)[0 := s]\<rparr>)
        (fs_cache_write s zero_sector (st\<lparr>free_sectors := rest\<rparr>))"
    using z by (subst allocate_direct.simps) simp
  also have "\<dots> = (d\<lparr>direct_blocks := (direct_blocks d)[0 := s]\<rparr>,
      fs_cache_write s zero_sector (st\<lparr>free_sectors := rest\<rparr>))"
    by (subst allocate_direct.simps) simp
  finally show ?thesis
    using assms(1)
    by (simp add: inode_allocate_def bytes_to_sectors_512 DIRECT_BLOCKS_def word_sless_alt)
qed

lemma inode_create_one_sector:
  assumes wf: "cache_wf st" and free: "free_sectors st = s # rest" and ne: "s \<noteq> sec"
  shows "\<exists>st'. inode_create True sec 512 st = Inr (True, st') \<and> cache_wf st' \<and>
           cache_content st' s = zero_sector \<and>
           cache_content st' sec = sector_of_inode_disk (one_sector_disk s) \<and>
           open_inodes st' = open_inodes st \<and> heap_slots st' = heap_slots st \<and>
           free_sectors st' = rest"
proof -
  let ?d = "calloc_inode_disk\<lparr>length' := 512, magic := INODE_MAGIC\<rparr>"
  let ?st1 = "fs_cache_write s zero_sector (st\<lparr>free_sectors := rest\<rparr>)"
  let ?st2 = "fs_cache_write sec (sector_of_inode_disk (one_sector_disk s)) ?st1"
  have d1: "?d\<lparr>direct_blocks := (direct_blocks ?d)[0 := s]\<rparr> = one_sector_disk s"
    by (simp add: one_sector_disk_def calloc_inode_disk_def)
  have a: "inode_allocate ?d st = Inr (True, one_sector_disk s, ?st1)"
    using inode_allocate_one_sector [of ?d st s rest] free d1 by simp
  have c: "inode_create True sec 512 st = Inr (True, ?st2)"
    using a by (simp add: inode_create_def word_sle_eq)
  have wf0: "cache_wf (st\<lparr>free_sectors := rest\<rparr>)" using wf by simp
  note w1 = fs_cache_write_props [OF wf0, of s zero_sector]
  note w2 = fs_cache_write_props [OF w1(1), of sec "sector_of_inode_disk (one_sector_disk s)"]
  have len: "length (sector_of_inode_disk (one_sector_disk s)) = BLOCK_SECTOR_SIZE"
    by (simp add: sector_of_inode_disk_def length_bytes_of_words one_sector_disk_def
        DIRECT_BLOCKS_def BLOCK_SECTOR_SIZE_def)
  have "cache_content ?st2 s = zero_sector" using w2(2) [of s] w1(2) [of s] ne by simp
  moreover have "cache_content ?st2 sec = sector_of_inode_disk (one_sector_disk s)"
    using w2(2) [of sec] len by simp
  moreover have "open_inodes ?st2 = open_inodes st" "heap_slots ?st2 = heap_slots st"
    "free_sectors ?st2 = rest"
    by (simp_all add: write_frame)
  ultimately show ?thesis using c w2(1) by blast
qed

lemma inode_open_fresh:
  assumes wf: "cache_wf st" and none: "find_open (open_inodes st) sec = None"
    and heap: "0 < heap_slots st"
  shows "\<exists>p st'. inode_open sec st = Inr (Some p, st') \<and>
           map_of (open_inodes st') p =
             Some \<lparr>sector' = sec, open_cnt = 1, removed = False, deny_write_cnt = 0,
                   data' = inode_disk_of_sector (cache_content st sec)\<rparr> \<and>
           cache_wf st' \<and> (\<forall>x. cache_content st' x = cache_content st x)"
proof -
  let ?p = "Suc (fold max (map fst (open_inodes st)) 0)"
  let ?st1 = "st\<lparr>heap_slots := heap_slots st - 1\<rparr>"
  obtain buf st2 where rd: "fs_cache_read sec ?st1 = (buf, st2)" by (cases "fs_cache_read sec ?st1")
  have wf1: "cache_wf ?st1" using wf by simp
  note r = fs_cache_read_props [OF wf1 rd]
  let ?ino = "\<lparr>sector' = sec, open_cnt = 1, removed = False, deny_write_cnt = 0,
               data' = inode_disk_of_sector buf\<rparr>"
  let ?st' = "st2\<lparr>open_inodes := (?p, ?ino) # open_inodes st2\<rparr>"
  have "inode_open sec st = Inr (Some ?p, ?st')"
    using none heap rd by (simp add: inode_open_def malloc_inode_def)
  moreover have "map_of (open_inodes ?st') ?p =
      Some \<lparr>sector' = sec, open_cnt = 1, removed = False, deny_write_cnt = 0,
            data' = inode_disk_of_sector (cache_content st sec)\<rparr>"
    using r(1) by simp
  moreover have "cache_wf ?st'" using r(2) by simp
  moreover have "\<forall>x. cache_content ?st' x = cache_content st x" using r(3) by simp
  ultimately show ?thesis by blast
qed

lemma byte_to_sector_first:
  assumes "length' (data' inode) = 512" and "direct_blocks (data' inode) ! 0 = s"
  shows "byte_to_sector inode 0 st = Inr (s, st)"
  using assms
  by (simp add: byte_to_sector_def index_to_sector_def c_div_def word_sless_alt word_sle_eq
      DIRECT_BLOCKS_def)

lemma write_one_byte:
  assumes wf: "cache_wf st" and len: "length' (data' inode) = 512"
    and blk: "direct_blocks (data' inode) ! 0 = s" and s: "s \<noteq> - 1"
    and deny: "deny_write_cnt inode = 0" and zero: "cache_content st s = zero_sector"
  shows "\<exists>st'. inode_write_at inode True [b] 1 0 st = Inr (1, st') \<and> cache_wf st' \<and>
           cache_content st' s = b # replicate 511 0"
proof -
  note bts = byte_to_sector_first [OF len blk]
  obtain bounce st1 where rd: "fs_cache_read s st = (bounce, st1)" by (cases "fs_cache_read s st")
  note r = fs_cache_read_props [OF wf rd]
  from r(1) zero have bounce: "bounce = zero_sector" by simp
  let ?new = "copy_into bounce 0 [b]"
  let ?st2 = "fs_cache_write s ?new st1"
  have new: "?new = b # replicate 511 0"
    by (simp add: bounce copy_into_def zero_sector_def BLOCK_SECTOR_SIZE_def)
  have stop: "inode_write_loop inode True [b] 0 1 1 ?st2 = Inr (1, ?st2)"
    by (subst inode_write_loop.simps) (simp add: word_sless_alt)
  have loop: "inode_write_loop inode True [b] 1 0 0 st = Inr (1, ?st2)"
    using stop rd
    by (subst inode_write_loop.simps)
       (simp add: bts inode_length_def len c_mod_def word_sless_alt word_sle_eq Let_def)
  have "inode_write_at inode True [b] 1 0 st = Inr (1, ?st2)"
    using deny s loop by (simp add: inode_write_at_def bts)
  moreover note w = fs_cache_write_props [OF r(2), of s ?new]
  have "cache_wf ?st2" by (rule w(1))
  moreover have "cache_content ?st2 s = b # replicate 511 0"
    using w(2) [of s] by (simp add: new BLOCK_SECTOR_SIZE_def)
  ultimately show ?thesis by blast
qed

lemma read_first_sector:
  assumes wf: "cache_wf st" and len: "length' (data' inode) = 512"
    and blk: "direct_blocks (data' inode) ! 0 = s"
    and c: "length (cache_content st s) = 512" and buf: "length buffer = 512"
  shows "\<exists>st'. inode_read_at inode mem buffer 512 0 st = Inr ((512, cache_content st s), st')"
proof -
  note bts = byte_to_sector_first [OF len blk]
  obtain d st1 where rd: "fs_cache_read s st = (d, st1)" by (cases "fs_cache_read s st")
  note r = fs_cache_read_props [OF wf rd]
  have cp: "copy_into buffer 0 d = cache_content st s"
    using r(1) c buf by (simp add: copy_into_def)
  have stop: "inode_read_loop inode mem (cache_content st s) 0 512 512 st1 =
      Inr ((512, cache_content st s), st1)"
    by (subst inode_read_loop.simps) (simp add: word_sless_alt)
  have "inode_read_loop inode mem buffer 512 0 0 st = Inr ((512, cache_content st s), st1)"
    using stop rd cp
    by (subst inode_read_loop.simps)
       (simp add: bts inode_length_def len c_mod_def word_sless_alt word_sle_eq Let_def)
  then show ?thesis by (auto simp: inode_read_at_def)
qed

lemma allocate_zeroed_content_other:
  assumes "cache_wf st" and "allocate_zeroed e st = (e', st')"
  shows "cache_content st' x = (if x = e' then zero_sector else cache_content st x)"
proof -
  obtain r st1 where f: "free_map_allocate st = (r, st1)" by (cases "free_map_allocate st")
  then have wf1: "cache_wf st1" and c1: "cache_content st1 x = cache_content st x"
    using assms(1) by (auto simp: free_map_allocate_def split: list.splits)
  from assms(2) f have st': "st' = fs_cache_write e' zero_sector st1"
    by (auto simp: allocate_zeroed_def Let_def)
  from fs_cache_write_props(2) [OF wf1, of e' zero_sector x] st' c1 show ?thesis by simp
qed

text \<open>
  The loop over \<^verbatim>\<open>direct_blocks\<close>: every entry it has filled names a sector that reads
  as all zero, sectors that read as zero before still do, and the entries are the sectors
  of the allocator, in its order, when it holds enough of them.
\<close>

lemma allocate_direct_zero:
  "cache_wf st \<Longrightarrow> l \<le> length (direct_blocks d) \<Longrightarrow>
   cache_wf (snd (allocate_direct i l d st)) \<and>
   (\<forall>x. cache_content st x = zero_sector \<longrightarrow>
        cache_content (snd (allocate_direct i l d st)) x = zero_sector) \<and>
   (\<forall>j. i \<le> j \<and> j < l \<longrightarrow> cache_content (snd (allocate_direct i l d st))
             (direct_blocks (fst (allocate_direct i l d st)) ! j) = zero_sector) \<and>
   (\<forall>j. j < i \<or> l \<le> j \<longrightarrow>
        direct_blocks (fst (allocate_direct i l d st)) ! j = direct_blocks d ! j) \<and>
   length (direct_blocks (fst (allocate_direct i l d st))) = length (direct_blocks d) \<and>
   (l - i \<le> length (free_sectors st) \<longrightarrow>
      (\<forall>j. i \<le> j \<and> j < l \<longrightarrow>
         direct_blocks (fst (allocate_direct i l d st)) ! j = free_sectors st ! (j - i)))"
proof (induction i l d st rule: allocate_direct.induct)
  case (1 i l d st)
  note wf = "1.prems"(1) and len = "1.prems"(2)
  show ?case
  proof (cases "i < l")
    case False
    then have e: "allocate_direct i l d st = (d, st)" by (subst allocate_direct.simps) simp
    from False wf show ?thesis unfolding e by auto
  next
    case True
    obtain s st1 where a: "allocate_zeroed (direct_blocks d ! i) st = (s, st1)"
      by (cases "allocate_zeroed (direct_blocks d ! i) st")
    let ?d1 = "d\<lparr>direct_blocks := (direct_blocks d)[i := s]\<rparr>"
    let ?R = "allocate_direct (Suc i) l ?d1 st1"
    have e: "allocate_direct i l d st = ?R"
      using True a by (subst allocate_direct.simps) simp
    note c = allocate_zeroed_content [OF wf a]
    note o = allocate_zeroed_content_other [OF wf a]
    from True len have il: "i < length (direct_blocks d)" by simp
    have len1: "l \<le> length (direct_blocks ?d1)" using len by simp
    note ih = "1.IH" [OF True a [symmetric] refl c(1) len1]
    from ih have wfR: "cache_wf (snd ?R)" by simp
    from ih have keep: "\<forall>x. cache_content st1 x = zero_sector \<longrightarrow> cache_content (snd ?R) x = zero_sector"
      by simp
    from ih have zR: "\<forall>j. Suc i \<le> j \<and> j < l \<longrightarrow>
        cache_content (snd ?R) (direct_blocks (fst ?R) ! j) = zero_sector"
      by simp
    from ih have pR: "\<forall>j. j < Suc i \<or> l \<le> j \<longrightarrow> direct_blocks (fst ?R) ! j = direct_blocks ?d1 ! j"
      by simp
    from ih have lR: "length (direct_blocks (fst ?R)) = length (direct_blocks d)" by simp
    from pR il have pi: "direct_blocks (fst ?R) ! i = s" by simp
    have k: "\<forall>x. cache_content st x = zero_sector \<longrightarrow> cache_content (snd ?R) x = zero_sector"
    proof (intro allI impI)
      fix x assume "cache_content st x = zero_sector"
      with o [of x] have "cache_content st1 x = zero_sector" by simp
      with keep show "cache_content (snd ?R) x = zero_sector" by simp
    qed
    have z: "\<forall>j. i \<le> j \<and> j < l \<longrightarrow> cache_content (snd ?R) (direct_blocks (fst ?R) ! j) = zero_sector"
    proof (intro allI impI)
      fix j assume j: "i \<le> j \<and> j < l"
      show "cache_content (snd ?R) (direct_blocks (fst ?R) ! j) = zero_sector"
      proof (cases "j = i")
        case True
        with pi c(2) keep show ?thesis by simp
      next
        case False
        with j have "Suc i \<le> j \<and> j < l" by simp
        with zR show ?thesis by simp
      qed
    qed
    have pl: "\<forall>j. j < i \<or> l \<le> j \<longrightarrow> direct_blocks (fst ?R) ! j = direct_blocks d ! j"
    proof (intro allI impI)
      fix j assume j: "j < i \<or> l \<le> j"
      with True have "j < Suc i \<or> l \<le> j" "j \<noteq> i" by auto
      with pR [rule_format, of j] show "direct_blocks (fst ?R) ! j = direct_blocks d ! j" by simp
    qed
    have fr: "l - i \<le> length (free_sectors st) \<longrightarrow>
      (\<forall>j. i \<le> j \<and> j < l \<longrightarrow> direct_blocks (fst ?R) ! j = free_sectors st ! (j - i))"
    proof (intro impI allI)
      fix j
      assume n: "l - i \<le> length (free_sectors st)" and j: "i \<le> j \<and> j < l"
      from n True have ne: "free_sectors st \<noteq> []" by auto
      from allocate_zeroed_free [of "direct_blocks d ! i" st] a
      have f1: "free_sectors st1 = drop 1 (free_sectors st)" by simp
      with n True have n1: "l - Suc i \<le> length (free_sectors st1)" by simp
      show "direct_blocks (fst ?R) ! j = free_sectors st ! (j - i)"
      proof (cases "j = i")
        case True
        with pi c(3) [OF ne] ne show ?thesis by (simp add: hd_conv_nth)
      next
        case False
        with j have j1: "Suc i \<le> j \<and> j < l" by simp
        with ih n1 have "direct_blocks (fst ?R) ! j = free_sectors st1 ! (j - Suc i)" by simp
        also have "\<dots> = free_sectors st ! (j - i)"
        proof -
          from j1 have "j - i = Suc (j - Suc i)" by arith
          then show ?thesis
            using f1 ne by (cases "free_sectors st") simp_all
        qed
        finally show ?thesis .
      qed
    qed
    from wfR k z pl lR fr show ?thesis unfolding e by simp
  qed
qed

text \<open>The same for the loop over the entries of an indirection block whose entries are data sectors.\<close>

lemma allocate_entries_zero:
  "(\<And>e k s. sub e k s = Inr (allocate_zeroed e s)) \<Longrightarrow> cache_wf st \<Longrightarrow>
   l \<le> length blocks \<Longrightarrow> l \<le> INDIRECT_BLOCKS \<Longrightarrow>
   \<exists>blocks' st'. allocate_entries sub n i l nsectors blocks st = Inr (blocks', st') \<and>
     cache_wf st' \<and>
     (\<forall>x. cache_content st x = zero_sector \<longrightarrow> cache_content st' x = zero_sector) \<and>
     (\<forall>j. i \<le> j \<and> j < l \<longrightarrow> cache_content st' (blocks' ! j) = zero_sector) \<and>
     (\<forall>j. j < i \<or> l \<le> j \<longrightarrow> blocks' ! j = blocks ! j) \<and>
     length blocks' = length blocks \<and>
     (l - i \<le> length (free_sectors st) \<longrightarrow>
        (\<forall>j. i \<le> j \<and> j < l \<longrightarrow> blocks' ! j = free_sectors st ! (j - i)))"
proof (induction sub n i l nsectors blocks st rule: allocate_entries.induct)
  case (1 sub n i l nsectors blocks st)
  note sub = "1.prems"(1) and wf = "1.prems"(2) and len = "1.prems"(3) and lb = "1.prems"(4)
  show ?case
  proof (cases "i < l")
    case False
    then have e: "allocate_entries sub n i l nsectors blocks st = Inr (blocks, st)"
      by (subst allocate_entries.simps) simp
    from False wf show ?thesis unfolding e by auto
  next
    case True
    with lb have ib: "i < INDIRECT_BLOCKS" by simp
    obtain b st1 where a: "allocate_zeroed (blocks ! i) st = (b, st1)"
      by (cases "allocate_zeroed (blocks ! i) st")
    then have s: "sub (blocks ! i) (min nsectors n) st = Inr (b, st1)" by (simp add: sub)
    note c = allocate_zeroed_content [OF wf a]
    note o = allocate_zeroed_content_other [OF wf a]
    from True len have il: "i < length blocks" by simp
    have len1: "l \<le> length (blocks[i := b])" using len by simp
    from "1.IH" [OF True ib s refl sub c(1) len1 lb] obtain blocks' st' where
      r: "allocate_entries sub n (Suc i) l (nsectors - min nsectors n) (blocks[i := b]) st1
            = Inr (blocks', st')"
      and wfR: "cache_wf st'"
      and keep: "\<forall>x. cache_content st1 x = zero_sector \<longrightarrow> cache_content st' x = zero_sector"
      and zR: "\<forall>j. Suc i \<le> j \<and> j < l \<longrightarrow> cache_content st' (blocks' ! j) = zero_sector"
      and pR: "\<forall>j. j < Suc i \<or> l \<le> j \<longrightarrow> blocks' ! j = blocks[i := b] ! j"
      and lR: "length blocks' = length (blocks[i := b])"
      and fR: "l - Suc i \<le> length (free_sectors st1) \<longrightarrow>
        (\<forall>j. Suc i \<le> j \<and> j < l \<longrightarrow> blocks' ! j = free_sectors st1 ! (j - Suc i))"
      by (elim exE conjE)
    have e: "allocate_entries sub n i l nsectors blocks st = Inr (blocks', st')"
      using True ib s r by (subst allocate_entries.simps) simp
    from pR il have pi: "blocks' ! i = b" by simp
    have k: "\<forall>x. cache_content st x = zero_sector \<longrightarrow> cache_content st' x = zero_sector"
    proof (intro allI impI)
      fix x assume "cache_content st x = zero_sector"
      with o [of x] have "cache_content st1 x = zero_sector" by simp
      with keep show "cache_content st' x = zero_sector" by simp
    qed
    have z: "\<forall>j. i \<le> j \<and> j < l \<longrightarrow> cache_content st' (blocks' ! j) = zero_sector"
    proof (intro allI impI)
      fix j assume j: "i \<le> j \<and> j < l"
      show "cache_content st' (blocks' ! j) = zero_sector"
      proof (cases "j = i")
        case True
        with pi c(2) keep show ?thesis by simp
      next
        case False
        with j have "Suc i \<le> j \<and> j < l" by simp
        with zR show ?thesis by simp
      qed
    qed
    have pl: "\<forall>j. j < i \<or> l \<le> j \<longrightarrow> blocks' ! j = blocks ! j"
    proof (intro allI impI)
      fix j assume j: "j < i \<or> l \<le> j"
      with True have "j < Suc i \<or> l \<le> j" "j \<noteq> i" by auto
      with pR [rule_format, of j] show "blocks' ! j = blocks ! j" by simp
    qed
    have fr: "l - i \<le> length (free_sectors st) \<longrightarrow>
      (\<forall>j. i \<le> j \<and> j < l \<longrightarrow> blocks' ! j = free_sectors st ! (j - i))"
    proof (intro impI allI)
      fix j
      assume n: "l - i \<le> length (free_sectors st)" and j: "i \<le> j \<and> j < l"
      from n True have ne: "free_sectors st \<noteq> []" by auto
      from allocate_zeroed_free [of "blocks ! i" st] a
      have f1: "free_sectors st1 = drop 1 (free_sectors st)" by simp
      with n True have n1: "l - Suc i \<le> length (free_sectors st1)" by simp
      show "blocks' ! j = free_sectors st ! (j - i)"
      proof (cases "j = i")
        case True
        with pi c(3) [OF ne] ne show ?thesis by (simp add: hd_conv_nth)
      next
        case False
        with j have j1: "Suc i \<le> j \<and> j < l" by simp
        with fR n1 have "blocks' ! j = free_sectors st1 ! (j - Suc i)" by simp
        also have "\<dots> = free_sectors st ! (j - i)"
        proof -
          from j1 have "j - i = Suc (j - Suc i)" by arith
          then show ?thesis
            using f1 ne by (cases "free_sectors st") simp_all
        qed
        finally show ?thesis .
      qed
    qed
    from lR have lR': "length blocks' = length blocks" by simp
    from e wfR k z pl lR' fr show ?thesis by blast
  qed
qed

lemma bytes_of_words_zero: "bytes_of_words (replicate k 0) = replicate (4 * k) 0"
proof (induction k)
  case 0
  show ?case by (simp add: bytes_of_words_def)
next
  case (Suc k)
  have r4: "\<And>m x. replicate (4 + m) (x :: uint8_t) = x # x # x # x # replicate m x"
    by (simp add: numeral_eq_Suc)
  from Suc show ?case
    by (simp add: bytes_of_words_def word_to_bytes_def r4)
qed

lemma indirect_block_of_zero_sector:
  "indirect_block_of_sector zero_sector = replicate INDIRECT_BLOCKS 0"
proof -
  have z: "zero_sector = bytes_of_words (replicate INDIRECT_BLOCKS 0)"
    by (simp add: bytes_of_words_zero zero_sector_def BLOCK_SECTOR_SIZE_def INDIRECT_BLOCKS_def)
  show ?thesis
    unfolding indirect_block_of_sector_def by (subst z) (simp add: words_of_bytes_of_words)
qed

text \<open>
  The indirect tier from an inode whose \<^verbatim>\<open>indirect_block\<close> is still zero: the index
  block is the allocator's next sector, its entries are the sectors after it, and each
  of them reads as all zero.
\<close>

lemma inode_allocate_indirect_1_zero:
  assumes wf: "cache_wf st" and l: "l \<le> INDIRECT_BLOCKS"
    and fl: "l < length (free_sectors st)"
    and dist: "distinct (take (Suc l) (free_sectors st))"
  shows "\<exists>st' blocks. inode_allocate_indirect 0 l 1 st = Inr (free_sectors st ! 0, st') \<and>
           cache_wf st' \<and>
           (\<forall>x. cache_content st x = zero_sector \<and> x \<noteq> free_sectors st ! 0 \<longrightarrow>
                cache_content st' x = zero_sector) \<and>
           cache_content st' (free_sectors st ! 0) = bytes_of_words blocks \<and>
           length blocks = INDIRECT_BLOCKS \<and>
           (\<forall>j<l. blocks ! j = free_sectors st ! Suc j \<and>
                  cache_content st' (blocks ! j) = zero_sector)"
proof -
  from fl have ne: "free_sectors st \<noteq> []" by auto
  obtain e1 st1 where a: "allocate_zeroed 0 st = (e1, st1)" by (cases "allocate_zeroed 0 st")
  note c = allocate_zeroed_content [OF wf a]
  note o = allocate_zeroed_content_other [OF wf a]
  from c(3) [OF ne] ne have e1: "e1 = free_sectors st ! 0" by (simp add: hd_conv_nth)
  from allocate_zeroed_free [of 0 st] a
  have f1: "free_sectors st1 = drop 1 (free_sectors st)" by simp
  obtain buf st2 where r: "fs_cache_read e1 st1 = (buf, st2)" by (cases "fs_cache_read e1 st1")
  note rp = fs_cache_read_props [OF c(1) r]
  from rp(1) c(2) have buf: "buf = zero_sector" by simp
  from r have f2: "free_sectors st2 = free_sectors st1" using read_frame(2) [of e1 st1] by simp
  let ?b0 = "replicate INDIRECT_BLOCKS (0 :: block_sector_t)"
  have l0: "l \<le> length ?b0" using l by simp
  from allocate_entries_zero [of "\<lambda>e k s. inode_allocate_indirect e k 0 s" st2 l ?b0 1 0 l,
      OF _ rp(2) l0 l]
  obtain blocks st3 where
    al: "allocate_entries (\<lambda>e k s. inode_allocate_indirect e k 0 s) 1 0 l l ?b0 st2 = Inr (blocks, st3)"
    and wf3: "cache_wf st3"
    and keep: "\<forall>x. cache_content st2 x = zero_sector \<longrightarrow> cache_content st3 x = zero_sector"
    and z3: "\<forall>j. 0 \<le> j \<and> j < l \<longrightarrow> cache_content st3 (blocks ! j) = zero_sector"
    and lb: "length blocks = length ?b0"
    and fr: "l - 0 \<le> length (free_sectors st2) \<longrightarrow>
        (\<forall>j. 0 \<le> j \<and> j < l \<longrightarrow> blocks ! j = free_sectors st2 ! (j - 0))"
    by (auto simp del: replicate.simps)
  let ?st' = "fs_cache_write e1 (bytes_of_words blocks) st3"
  note wp = fs_cache_write_props [OF wf3, of e1 "bytes_of_words blocks"]
  have lb': "length blocks = INDIRECT_BLOCKS" using lb by simp
  then have tk: "take BLOCK_SECTOR_SIZE (bytes_of_words blocks) = bytes_of_words blocks"
    by (simp add: length_bytes_of_words BLOCK_SECTOR_SIZE_def INDIRECT_BLOCKS_def)
  have run: "inode_allocate_indirect 0 l (Suc 0) st = Inr (e1, ?st')"
    using a r al buf
    by (simp del: inode_allocate_indirect.simps(1) replicate.simps
        add: Let_def DIV_ROUND_UP_def indirect_block_of_zero_sector)
  have nth: "\<forall>j<l. blocks ! j = free_sectors st ! Suc j"
  proof (intro allI impI)
    fix j assume j: "j < l"
    from fl f1 f2 have "l \<le> length (free_sectors st2)" by simp
    with fr j have "blocks ! j = free_sectors st2 ! j" by simp
    also have "\<dots> = free_sectors st ! Suc j" using f1 f2 fl j by simp
    finally show "blocks ! j = free_sectors st ! Suc j" .
  qed
  have ne1: "\<forall>j<l. free_sectors st ! Suc j \<noteq> e1"
  proof (intro allI impI)
    fix j assume j: "j < l"
    let ?xs = "take (Suc l) (free_sectors st)"
    from fl j have b: "Suc j < length ?xs" "0 < length ?xs" by simp_all
    from nth_eq_iff_index_eq [OF dist b] have "?xs ! Suc j \<noteq> ?xs ! 0" by simp
    moreover from j have "?xs ! Suc j = free_sectors st ! Suc j" by (intro nth_take) simp
    moreover have "?xs ! 0 = free_sectors st ! 0" by (intro nth_take) simp
    ultimately show "free_sectors st ! Suc j \<noteq> e1" unfolding e1 by simp
  qed
  have k: "\<forall>x. cache_content st x = zero_sector \<and> x \<noteq> free_sectors st ! 0 \<longrightarrow>
      cache_content ?st' x = zero_sector"
  proof (intro allI impI)
    fix x assume x: "cache_content st x = zero_sector \<and> x \<noteq> free_sectors st ! 0"
    with o [of x] have "cache_content st1 x = zero_sector" by simp
    with rp(3) [of x] have "cache_content st2 x = zero_sector" by simp
    with keep have "cache_content st3 x = zero_sector" by simp
    with wp(2) [of x] x e1 show "cache_content ?st' x = zero_sector" by simp
  qed
  have z: "\<forall>j<l. blocks ! j = free_sectors st ! Suc j \<and> cache_content ?st' (blocks ! j) = zero_sector"
  proof (intro allI impI)
    fix j assume j: "j < l"
    with nth ne1 have b: "blocks ! j = free_sectors st ! Suc j" "blocks ! j \<noteq> e1" by simp_all
    from z3 j have "cache_content st3 (blocks ! j) = zero_sector" by simp
    with wp(2) [of "blocks ! j"] b show
      "blocks ! j = free_sectors st ! Suc j \<and> cache_content ?st' (blocks ! j) = zero_sector"
      by simp
  qed
  have ce: "cache_content ?st' (free_sectors st ! 0) = bytes_of_words blocks"
    using wp(2) [of e1] tk e1 by simp
  from run wp(1) k ce lb' z show ?thesis unfolding e1 by (simp del: inode_allocate_indirect.simps) blast
qed

lemma index_to_sector_direct:
  assumes "j < 124"
  shows "index_to_sector d (of_nat j) st = Inr (direct_blocks d ! j, st)"
  using index_to_sector_translate [of "int j" d st] assms
  by (simp add: translate_spec_def)

lemma index_to_sector_indirect:
  assumes "124 \<le> j" and "j < 252"
  shows "index_to_sector d (of_nat j) st =
           Inr (indirect_block_of_sector (fst (fs_cache_read (indirect_block d) st)) ! (j - 124),
                snd (fs_cache_read (indirect_block d) st))"
  using index_to_sector_translate [of "int j" d st] assms
  by (simp add: translate_spec_def split_beta)

lemma nth_in_take: "j < k \<Longrightarrow> k \<le> length xs \<Longrightarrow> xs ! j \<in> set (take k xs)"
  by (metis length_take min.absorb2 nth_mem nth_take)

text \<open>
  Allocation within the direct and the indirect tier, for an inode record as
  \<^verbatim>\<open>inode_create\<close> passes it and an allocator holding enough distinct sectors: it
  succeeds, and every logical block of the file is mapped by \<^verbatim>\<open>index_to_sector\<close> to a
  sector taken from the allocator that reads as all zero.
\<close>

lemma inode_allocate_zero:
  assumes wf: "cache_wf st" and neg: "\<not> length' d <s 0"
    and n: "bytes_to_sectors (length' d) \<le> DIRECT_BLOCKS + INDIRECT_BLOCKS"
    and db: "length (direct_blocks d) = DIRECT_BLOCKS" and ib: "indirect_block d = 0"
    and fl: "sectors_needed (bytes_to_sectors (length' d)) \<le> length (free_sectors st)"
    and dist: "distinct (take (sectors_needed (bytes_to_sectors (length' d))) (free_sectors st))"
  shows "\<exists>d' st'. inode_allocate d st = Inr (True, d', st') \<and> cache_wf st' \<and>
           (\<forall>j<bytes_to_sectors (length' d). \<exists>s st''.
              index_to_sector d' (of_nat j) st' = Inr (s, st'') \<and>
              s \<in> set (take (sectors_needed (bytes_to_sectors (length' d))) (free_sectors st)) \<and>
              cache_content st' s = zero_sector)"
proof (cases "bytes_to_sectors (length' d) \<le> DIRECT_BLOCKS")
  case True
  let ?n = "bytes_to_sectors (length' d)"
  let ?R = "allocate_direct 0 ?n d st"
  from True have sn: "sectors_needed ?n = ?n" by (simp add: sectors_needed_def)
  from True db have l: "?n \<le> length (direct_blocks d)" by simp
  note ad = allocate_direct_zero [OF wf l, of 0]
  from ad have p1: "cache_wf (snd ?R)" by simp
  from ad have p2: "\<forall>j<?n. cache_content (snd ?R) (direct_blocks (fst ?R) ! j) = zero_sector"
    by simp
  from ad fl sn have p3: "\<forall>j<?n. direct_blocks (fst ?R) ! j = free_sectors st ! j" by simp
  note p = p1 p2 p3
  from True have m: "min ?n DIRECT_BLOCKS = ?n" by simp
  have run: "inode_allocate d st = Inr (True, fst ?R, snd ?R)"
    using neg True by (simp add: inode_allocate_def m split_beta Let_def)
  have "\<forall>j<?n. \<exists>s st''. index_to_sector (fst ?R) (of_nat j) (snd ?R) = Inr (s, st'') \<and>
      s \<in> set (take (sectors_needed ?n) (free_sectors st)) \<and> cache_content (snd ?R) s = zero_sector"
  proof (intro allI impI)
    fix j assume j: "j < ?n"
    with True have "j < 124" by (simp add: DIRECT_BLOCKS_def)
    then have i: "index_to_sector (fst ?R) (of_nat j) (snd ?R) = Inr (direct_blocks (fst ?R) ! j, snd ?R)"
      by (rule index_to_sector_direct)
    from p(3) j have e: "direct_blocks (fst ?R) ! j = free_sectors st ! j" by simp
    from p(2) [rule_format, OF j] e
    have c: "cache_content (snd ?R) (free_sectors st ! j) = zero_sector" by simp
    from j fl sn have "free_sectors st ! j \<in> set (take (sectors_needed ?n) (free_sectors st))"
      by (intro nth_in_take) simp_all
    with i e c show "\<exists>s st''. index_to_sector (fst ?R) (of_nat j) (snd ?R) = Inr (s, st'') \<and>
      s \<in> set (take (sectors_needed ?n) (free_sectors st)) \<and> cache_content (snd ?R) s = zero_sector"
      by simp
  qed
  with run p(1) show ?thesis by blast
next
  case False
  let ?n = "bytes_to_sectors (length' d)"
  let ?fs = "free_sectors st"
  let ?R = "allocate_direct 0 DIRECT_BLOCKS d st"
  let ?l = "?n - DIRECT_BLOCKS"
  from False have sn: "sectors_needed ?n = Suc ?n" by (simp add: sectors_needed_def)
  from False n have l: "?l \<le> INDIRECT_BLOCKS" "0 < ?l" "?n = DIRECT_BLOCKS + ?l" by simp_all
  from fl sn have fl': "Suc ?n \<le> length ?fs" by simp
  from dist sn have dist': "distinct (take (Suc ?n) ?fs)" by simp
  from db have ld: "DIRECT_BLOCKS \<le> length (direct_blocks d)" by simp
  from fl' l(3) have fd: "DIRECT_BLOCKS - 0 \<le> length ?fs" by simp
  note ad = allocate_direct_zero [OF wf ld, of 0]
  from ad have p1: "cache_wf (snd ?R)" by simp
  from ad have p2: "\<forall>j<DIRECT_BLOCKS. cache_content (snd ?R) (direct_blocks (fst ?R) ! j) = zero_sector"
    by simp
  from ad fd have p3: "\<forall>j<DIRECT_BLOCKS. direct_blocks (fst ?R) ! j = ?fs ! j" by simp
  note p = p1 p2 p3
  from allocate_direct_props [of 0 DIRECT_BLOCKS d st] ib
  have q: "free_sectors (snd ?R) = drop DIRECT_BLOCKS ?fs" "indirect_block (fst ?R) = 0"
    by simp_all
  have fl1: "?l < length (free_sectors (snd ?R))" using fl' l(3) q(1) by simp
  from False have "Suc ?n - DIRECT_BLOCKS = Suc ?l" by arith
  then have "take (Suc ?l) (drop DIRECT_BLOCKS ?fs) = drop DIRECT_BLOCKS (take (Suc ?n) ?fs)"
    by (simp only: drop_take)
  with dist' have dist1: "distinct (take (Suc ?l) (free_sectors (snd ?R)))"
    unfolding q(1) by (simp del: take_Suc)
  have h0: "free_sectors (snd ?R) ! 0 = ?fs ! DIRECT_BLOCKS"
    using q(1) fl' l(3) by simp
  have hj: "\<And>j. j < ?l \<Longrightarrow> free_sectors (snd ?R) ! Suc j = ?fs ! (DIRECT_BLOCKS + Suc j)"
    using q(1) fl' l(3) by simp
  from inode_allocate_indirect_1_zero [OF p(1) l(1) fl1 dist1] obtain st2 blocks where
    run2: "inode_allocate_indirect 0 ?l 1 (snd ?R) = Inr (?fs ! DIRECT_BLOCKS, st2)"
    and wf2: "cache_wf st2"
    and keep: "\<forall>x. cache_content (snd ?R) x = zero_sector \<and> x \<noteq> ?fs ! DIRECT_BLOCKS \<longrightarrow>
        cache_content st2 x = zero_sector"
    and ce: "cache_content st2 (?fs ! DIRECT_BLOCKS) = bytes_of_words blocks"
    and lb: "length blocks = INDIRECT_BLOCKS"
    and z: "\<forall>j<?l. blocks ! j = free_sectors (snd ?R) ! Suc j \<and>
        cache_content st2 (blocks ! j) = zero_sector"
    unfolding h0 by (elim exE conjE)
  let ?d2 = "(fst ?R)\<lparr>indirect_block := ?fs ! DIRECT_BLOCKS\<rparr>"
  from False have m: "min ?n DIRECT_BLOCKS = DIRECT_BLOCKS" by simp
  from l(1) have m2: "min ?l INDIRECT_BLOCKS = ?l" by simp
  have run: "inode_allocate d st = Inr (True, ?d2, st2)"
    using neg False run2 q(2) l(2)
    by (simp add: inode_allocate_def m m2 split_beta Let_def del: inode_allocate_indirect.simps)
  have "\<forall>j<?n. \<exists>s st''. index_to_sector ?d2 (of_nat j) st2 = Inr (s, st'') \<and>
      s \<in> set (take (sectors_needed ?n) ?fs) \<and> cache_content st2 s = zero_sector"
  proof (intro allI impI)
    fix j assume j: "j < ?n"
    show "\<exists>s st''. index_to_sector ?d2 (of_nat j) st2 = Inr (s, st'') \<and>
      s \<in> set (take (sectors_needed ?n) ?fs) \<and> cache_content st2 s = zero_sector"
    proof (cases "j < DIRECT_BLOCKS")
      case True
      then have "j < 124" by (simp add: DIRECT_BLOCKS_def)
      then have i: "index_to_sector ?d2 (of_nat j) st2 = Inr (direct_blocks ?d2 ! j, st2)"
        by (rule index_to_sector_direct)
      from p(3) True have e: "direct_blocks ?d2 ! j = ?fs ! j" by simp
      from p(2) [rule_format, OF True] e
      have c1: "cache_content (snd ?R) (?fs ! j) = zero_sector" by simp
      let ?xs = "take (Suc ?n) ?fs"
      from True fl' l(3) have b: "j < length ?xs" "DIRECT_BLOCKS < length ?xs" by simp_all
      from nth_eq_iff_index_eq [OF dist' b] True have "?xs ! j \<noteq> ?xs ! DIRECT_BLOCKS" by simp
      moreover from True l(3) have "?xs ! j = ?fs ! j" by (intro nth_take) simp
      moreover from l(3) have "?xs ! DIRECT_BLOCKS = ?fs ! DIRECT_BLOCKS" by (intro nth_take) simp
      ultimately have "?fs ! j \<noteq> ?fs ! DIRECT_BLOCKS" by simp
      with keep c1 have c2: "cache_content st2 (?fs ! j) = zero_sector" by simp
      from j fl' have "?fs ! j \<in> set (take (Suc ?n) ?fs)" by (intro nth_in_take) simp_all
      with i e c2 sn show ?thesis by simp
    next
      case False
      with j n have jj: "124 \<le> j" "j < 252"
        by (simp_all add: DIRECT_BLOCKS_def INDIRECT_BLOCKS_def)
      obtain buf st3 where r: "fs_cache_read (indirect_block ?d2) st2 = (buf, st3)"
        by (cases "fs_cache_read (indirect_block ?d2) st2")
      from fs_cache_read_props(1) [OF wf2 r] ce have buf: "buf = bytes_of_words blocks" by simp
      from lb have ibk: "indirect_block_of_sector buf = blocks"
        unfolding buf by (simp add: indirect_block_of_sector_def words_of_bytes_of_words)
      from index_to_sector_indirect [OF jj, of ?d2 st2] r ibk
      have i: "index_to_sector ?d2 (of_nat j) st2 = Inr (blocks ! (j - 124), st3)" by simp
      from False j have k: "j - 124 < ?l" "DIRECT_BLOCKS + Suc (j - 124) = Suc j"
        by (simp_all add: DIRECT_BLOCKS_def)
      from z [rule_format, OF k(1)]
      have zz: "blocks ! (j - 124) = free_sectors (snd ?R) ! Suc (j - 124)"
        "cache_content st2 (blocks ! (j - 124)) = zero_sector"
        by (rule conjunct1, rule conjunct2)
      from zz(1) hj [OF k(1)] k(2) have e: "blocks ! (j - 124) = ?fs ! Suc j" by simp
      from j fl' have "?fs ! Suc j \<in> set (take (Suc ?n) ?fs)" by (intro nth_in_take) simp_all
      with i e zz(2) sn show ?thesis by simp
    qed
  qed
  with run wf2 show ?thesis by blast
qed

text \<open>
  What holds of the zeroing. Every allocation site of the engine is \<open>allocate_zeroed\<close>:
  the sector it obtains reads as all zero through the cache right after. An allocation
  of up to 124 + 128 sectors for a new inode, from an allocator that holds the sectors
  needed without repetition, succeeds, and \<^verbatim>\<open>index_to_sector\<close> maps every logical block
  of the file to a sector obtained from the allocator that reads as all zero. And in a
  state with a well-formed cache whose allocator hands out \<open>s\<close> next (not the inode's
  own sector and not the sentinel \<open>-1\<close>), with no open inode of sector \<open>sec\<close> and room
  for one, \<^verbatim>\<open>inode_create (sec, 512)\<close> succeeds and the data sector reads as zero;
  \<^verbatim>\<open>inode_open (sec)\<close> returns a handle; writing the one byte \<open>b\<close> at offset 0 through
  it returns 1; and reading 512 bytes at offset 0 then returns 512 and the buffer \<open>b\<close>
  followed by 511 zero bytes.
\<close>

lemma fresh_file_reads_zero:
  assumes "cache_wf st" and "free_sectors st = s # rest" and "s \<noteq> sec" and "s \<noteq> - 1"
    and "find_open (open_inodes st) sec = None" and "0 < heap_slots st"
    and "length buffer = 512"
  shows "(\<forall>e e' st'. allocate_zeroed e st = (e', st') \<longrightarrow>
            e' = s \<and> cache_content st' e' = zero_sector) \<and>
         (\<forall>len. 0 \<le>s len \<and> bytes_to_sectors len \<le> DIRECT_BLOCKS + INDIRECT_BLOCKS \<and>
                sectors_needed (bytes_to_sectors len) \<le> length (free_sectors st) \<and>
                distinct (take (sectors_needed (bytes_to_sectors len)) (free_sectors st)) \<longrightarrow>
            (\<exists>d' st'. inode_allocate (calloc_inode_disk\<lparr>length' := len, magic := INODE_MAGIC\<rparr>) st
                 = Inr (True, d', st') \<and>
               (\<forall>j<bytes_to_sectors len. \<exists>x st''.
                  index_to_sector d' (of_nat j) st' = Inr (x, st'') \<and>
                  x \<in> set (take (sectors_needed (bytes_to_sectors len)) (free_sectors st)) \<and>
                  cache_content st' x = zero_sector))) \<and>
         (\<exists>st1 p st2 inode st3 st4.
            inode_create True sec 512 st = Inr (True, st1) \<and>
            cache_content st1 s = zero_sector \<and>
            inode_open sec st1 = Inr (Some p, st2) \<and>
            map_of (open_inodes st2) p = Some inode \<and>
            inode_write_at inode True [b] 1 0 st2 = Inr (1, st3) \<and>
            inode_read_at inode True buffer 512 0 st3 = Inr ((512, b # replicate 511 0), st4))"
proof (intro conjI allI impI)
  fix e e' st'
  assume a: "allocate_zeroed e st = (e', st')"
  from allocate_zeroed_content [OF assms(1) a] assms(2)
  show "e' = s" and "cache_content st' e' = zero_sector" by simp_all
next
  fix len :: off_t
  let ?d = "calloc_inode_disk\<lparr>length' := len, magic := INODE_MAGIC\<rparr>"
  assume h: "0 \<le>s len \<and> bytes_to_sectors len \<le> DIRECT_BLOCKS + INDIRECT_BLOCKS \<and>
      sectors_needed (bytes_to_sectors len) \<le> length (free_sectors st) \<and>
      distinct (take (sectors_needed (bytes_to_sectors len)) (free_sectors st))"
  then have neg: "\<not> length' ?d <s 0" by (simp add: word_sless_alt word_sle_eq)
  from h have n: "bytes_to_sectors (length' ?d) \<le> DIRECT_BLOCKS + INDIRECT_BLOCKS"
    and fl: "sectors_needed (bytes_to_sectors (length' ?d)) \<le> length (free_sectors st)"
    and dist: "distinct (take (sectors_needed (bytes_to_sectors (length' ?d))) (free_sectors st))"
    by simp_all
  have db: "length (direct_blocks ?d) = DIRECT_BLOCKS" and ib: "indirect_block ?d = 0"
    by (simp_all add: calloc_inode_disk_def)
  from inode_allocate_zero [OF assms(1) neg n db ib fl dist]
  show "\<exists>d' st'. inode_allocate ?d st = Inr (True, d', st') \<and>
      (\<forall>j<bytes_to_sectors len. \<exists>x st''.
         index_to_sector d' (of_nat j) st' = Inr (x, st'') \<and>
         x \<in> set (take (sectors_needed (bytes_to_sectors len)) (free_sectors st)) \<and>
         cache_content st' x = zero_sector)"
    by simp blast
next
  from inode_create_one_sector [OF assms(1,2,3)] obtain st1 where
    c: "inode_create True sec 512 st = Inr (True, st1)" and wf1: "cache_wf st1"
    and z1: "cache_content st1 s = zero_sector"
    and i1: "cache_content st1 sec = sector_of_inode_disk (one_sector_disk s)"
    and o1: "open_inodes st1 = open_inodes st" "heap_slots st1 = heap_slots st"
    by blast
  have none1: "find_open (open_inodes st1) sec = None" using assms(5) o1 by simp
  have heap1: "0 < heap_slots st1" using assms(6) o1 by simp
  let ?ino = "\<lparr>sector' = sec, open_cnt = 1, removed = False, deny_write_cnt = 0,
               data' = inode_disk_of_sector (cache_content st1 sec)\<rparr>"
  from inode_open_fresh [OF wf1 none1 heap1] obtain p st2 where
    op: "inode_open sec st1 = Inr (Some p, st2)" and mo: "map_of (open_inodes st2) p = Some ?ino"
    and wf2: "cache_wf st2" and c2: "\<And>x. cache_content st2 x = cache_content st1 x"
    by blast
  have "length (sector_of_inode_disk (one_sector_disk s)) = BLOCK_SECTOR_SIZE"
    by (simp add: sector_of_inode_disk_def length_bytes_of_words one_sector_disk_def
        DIRECT_BLOCKS_def BLOCK_SECTOR_SIZE_def)
  then have "inode_disk_of_sector (sector_of_inode_disk (one_sector_disk s)) = one_sector_disk s"
    using inode_disk_roundtrip [of "one_sector_disk s"]
    by (simp add: one_sector_disk_def DIRECT_BLOCKS_def calloc_inode_disk_def)
  then have d: "data' ?ino = one_sector_disk s" using i1 by simp
  have len: "length' (data' ?ino) = 512" and blk: "direct_blocks (data' ?ino) ! 0 = s"
    unfolding d by (simp_all add: one_sector_disk_def DIRECT_BLOCKS_def)
  have deny: "deny_write_cnt ?ino = 0" by simp
  have z2: "cache_content st2 s = zero_sector" using c2 z1 by simp
  from write_one_byte [OF wf2 len blk assms(4) deny z2, of b] obtain st3 where
    w: "inode_write_at ?ino True [b] 1 0 st2 = Inr (1, st3)" and wf3: "cache_wf st3"
    and c3: "cache_content st3 s = b # replicate 511 0"
    by blast
  have l3: "length (cache_content st3 s) = 512" using c3 by simp
  from read_first_sector [OF wf3 len blk l3 assms(7), of True] obtain st4 where
    r: "inode_read_at ?ino True buffer 512 0 st3 = Inr ((512, cache_content st3 s), st4)"
    by blast
  from c z1 op mo w r c3
  show "\<exists>st1 p st2 inode st3 st4.
            inode_create True sec 512 st = Inr (True, st1) \<and>
            cache_content st1 s = zero_sector \<and>
            inode_open sec st1 = Inr (Some p, st2) \<and>
            map_of (open_inodes st2) p = Some inode \<and>
            inode_write_at inode True [b] 1 0 st2 = Inr (1, st3) \<and>
            inode_read_at inode True buffer 512 0 st3 = Inr ((512, b # replicate 511 0), st4)"
    by (metis (no_types, lifting))
qed

lemma init_state_content: "cache_content init_state x = zero_sector"
proof -
  have "length (cache init_state) = CACHE_SIZE"
    by (simp add: init_state_def fs_cache_init_def static_cache_def)
  moreover have "\<forall>i<CACHE_SIZE. free (cache init_state ! i) \<or> sector (cache init_state ! i) \<noteq> x"
    by (simp add: init_state_def fs_cache_init_def static_cache_def)
  ultimately have "cache_content init_state x = fs_device init_state x"
    by (rule cache_content_miss)
  then show ?thesis by (simp add: init_state_fields)
qed

lemma distinct_sector_range:
  assumes "n \<le> 2 ^ 32"
  shows "distinct (map (of_nat :: nat \<Rightarrow> block_sector_t) [m..<n])"
proof -
  have "inj_on (of_nat :: nat \<Rightarrow> block_sector_t) {m..<n}"
  proof (rule inj_onI)
    fix x y :: nat
    assume x: "x \<in> {m..<n}" and y: "y \<in> {m..<n}"
      and e: "(of_nat x :: block_sector_t) = of_nat y"
    from x y assms have b: "x < 2 ^ 32" "y < 2 ^ 32" by simp_all
    from e have "unat (of_nat x :: block_sector_t) = unat (of_nat y :: block_sector_t)" by simp
    with b show "x = y" by (simp add: unat_of_nat)
  qed
  then show ?thesis by (simp add: distinct_map)
qed

lemma init_state_free_distinct: "distinct (free_sectors init_state)"
  unfolding init_state_fields by (rule distinct_sector_range) simp

text \<open>An instance: a file of one sector and a file of 125 sectors, after boot on a blank device.\<close>

lemma fresh_file_reads_zero_example:
  "cache_wf init_state \<and> free_sectors init_state = 2 # map of_nat [3..<300] \<and>
   (2 :: block_sector_t) \<noteq> 1 \<and> (2 :: block_sector_t) \<noteq> - 1 \<and>
   find_open (open_inodes init_state) 1 = None \<and> 0 < heap_slots init_state \<and>
   length (replicate 512 (255 :: uint8_t)) = 512 \<and>
   fst (allocate_zeroed 0 init_state) = 2 \<and>
   cache_content (snd (allocate_zeroed 0 init_state)) (fst (allocate_zeroed 0 init_state)) = zero_sector \<and>
   (0 :: off_t) \<le>s 64000 \<and> bytes_to_sectors 64000 \<le> DIRECT_BLOCKS + INDIRECT_BLOCKS \<and>
   sectors_needed (bytes_to_sectors 64000) \<le> length (free_sectors init_state) \<and>
   distinct (take (sectors_needed (bytes_to_sectors 64000)) (free_sectors init_state)) \<and>
   (124 :: nat) < bytes_to_sectors 64000 \<and>
   (\<exists>d' st' x st''.
      inode_allocate (calloc_inode_disk\<lparr>length' := 64000, magic := INODE_MAGIC\<rparr>) init_state
        = Inr (True, d', st') \<and>
      index_to_sector d' 124 st' = Inr (x, st'') \<and>
      x \<in> set (take (sectors_needed (bytes_to_sectors 64000)) (free_sectors init_state)) \<and>
      cache_content st' x = zero_sector) \<and>
   (\<exists>st1 p st2 inode st3 st4.
      inode_create True 1 512 init_state = Inr (True, st1) \<and>
      cache_content st1 2 = zero_sector \<and>
      inode_open 1 st1 = Inr (Some p, st2) \<and>
      map_of (open_inodes st2) p = Some inode \<and>
      inode_write_at inode True [65] 1 0 st2 = Inr (1, st3) \<and>
      inode_read_at inode True (replicate 512 255) 512 0 st3 = Inr ((512, 65 # replicate 511 0), st4))"
proof -
  have a: "cache_wf init_state" by (rule init_state_wf)
  have b: "free_sectors init_state = 2 # map of_nat [3..<300]"
    by (simp add: init_state_fields upt_conv_Cons)
  have c: "(2 :: block_sector_t) \<noteq> 1" and d: "(2 :: block_sector_t) \<noteq> - 1" by simp_all
  have e: "find_open (open_inodes init_state) 1 = None" by (simp add: init_state_fields)
  have f: "0 < heap_slots init_state" by (simp add: init_state_fields)
  have g: "length (replicate 512 (255 :: uint8_t)) = 512" by simp
  note t = fresh_file_reads_zero [OF a b c d e f g, of 65]
  from t have "\<forall>e e' st'. allocate_zeroed e init_state = (e', st') \<longrightarrow>
      e' = 2 \<and> cache_content st' e' = zero_sector" by (rule conjunct1)
  from this [rule_format, of 0 "fst (allocate_zeroed 0 init_state)" "snd (allocate_zeroed 0 init_state)"]
  have h: "fst (allocate_zeroed 0 init_state) = 2"
    "cache_content (snd (allocate_zeroed 0 init_state)) (fst (allocate_zeroed 0 init_state)) = zero_sector"
    by auto
  have n: "bytes_to_sectors 64000 = 125" by (simp add: bytes_to_sectors_def c_div_def)
  have w1: "(0 :: off_t) \<le>s 64000" by (simp add: word_sle_eq)
  have w2: "bytes_to_sectors 64000 \<le> DIRECT_BLOCKS + INDIRECT_BLOCKS"
    by (simp add: n DIRECT_BLOCKS_def INDIRECT_BLOCKS_def)
  have w3: "sectors_needed (bytes_to_sectors 64000) \<le> length (free_sectors init_state)"
    by (simp add: n sectors_needed_def DIRECT_BLOCKS_def init_state_fields)
  have w4: "distinct (take (sectors_needed (bytes_to_sectors 64000)) (free_sectors init_state))"
    by (rule distinct_take) (rule init_state_free_distinct)
  have w5: "(124 :: nat) < bytes_to_sectors 64000" by (simp add: n)
  from t have "\<forall>len. 0 \<le>s len \<and> bytes_to_sectors len \<le> DIRECT_BLOCKS + INDIRECT_BLOCKS \<and>
      sectors_needed (bytes_to_sectors len) \<le> length (free_sectors init_state) \<and>
      distinct (take (sectors_needed (bytes_to_sectors len)) (free_sectors init_state)) \<longrightarrow>
      (\<exists>d' st'. inode_allocate (calloc_inode_disk\<lparr>length' := len, magic := INODE_MAGIC\<rparr>) init_state
           = Inr (True, d', st') \<and>
         (\<forall>j<bytes_to_sectors len. \<exists>x st''.
            index_to_sector d' (of_nat j) st' = Inr (x, st'') \<and>
            x \<in> set (take (sectors_needed (bytes_to_sectors len)) (free_sectors init_state)) \<and>
            cache_content st' x = zero_sector))"
    by (rule conjunct2 [THEN conjunct1])
  from this [rule_format, of 64000] w1 w2 w3 w4 obtain d' st' where
    al: "inode_allocate (calloc_inode_disk\<lparr>length' := 64000, magic := INODE_MAGIC\<rparr>) init_state
           = Inr (True, d', st')"
    and ix: "\<forall>j<bytes_to_sectors 64000. \<exists>x st''.
            index_to_sector d' (of_nat j) st' = Inr (x, st'') \<and>
            x \<in> set (take (sectors_needed (bytes_to_sectors 64000)) (free_sectors init_state)) \<and>
            cache_content st' x = zero_sector"
    by blast
  from ix [rule_format, OF w5] obtain x st'' where
    "index_to_sector d' 124 st' = Inr (x, st'')"
    "x \<in> set (take (sectors_needed (bytes_to_sectors 64000)) (free_sectors init_state))"
    "cache_content st' x = zero_sector"
    by auto
  with al have w6: "\<exists>d' st' x st''.
      inode_allocate (calloc_inode_disk\<lparr>length' := 64000, magic := INODE_MAGIC\<rparr>) init_state
        = Inr (True, d', st') \<and>
      index_to_sector d' 124 st' = Inr (x, st'') \<and>
      x \<in> set (take (sectors_needed (bytes_to_sectors 64000)) (free_sectors init_state)) \<and>
      cache_content st' x = zero_sector"
    by blast
  from t have i: "\<exists>st1 p st2 inode st3 st4.
      inode_create True 1 512 init_state = Inr (True, st1) \<and>
      cache_content st1 2 = zero_sector \<and>
      inode_open 1 st1 = Inr (Some p, st2) \<and>
      map_of (open_inodes st2) p = Some inode \<and>
      inode_write_at inode True [65] 1 0 st2 = Inr (1, st3) \<and>
      inode_read_at inode True (replicate 512 255) 512 0 st3 = Inr ((512, 65 # replicate 511 0), st4)"
    by (rule conjunct2 [THEN conjunct2])
  show ?thesis
    by (intro conjI) (rule a b c d e f g h w1 w2 w3 w4 w5 w6 i)+
qed

theorem write_denied_witness:
  "0 < deny_write_cnt denied_inode \<and>
   inode_write_at denied_inode True [65] 1 0 init_state = Inr (0, init_state) \<and>
   (\<exists>st'. inode_write_at one_sector_inode True [65] 1 0 init_state = Inr (1, st')) \<and>
   deny_write_cnt one_sector_inode = 0"
proof -
  have a: "0 < deny_write_cnt denied_inode" by (simp add: denied_inode_def)
  from write_denied [of denied_inode True "[65]" 1 0 init_state] a
  have b: "inode_write_at denied_inode True [65] 1 0 init_state = Inr (0, init_state)" by blast
  have len: "length' (data' one_sector_inode) = 512"
    and blk: "direct_blocks (data' one_sector_inode) ! 0 = 2"
    and deny: "deny_write_cnt one_sector_inode = 0"
    by (simp_all add: one_sector_inode_def calloc_inode_disk_def DIRECT_BLOCKS_def)
  have s: "(2 :: block_sector_t) \<noteq> - 1" by simp
  from write_one_byte [OF init_state_wf len blk s deny init_state_content, of 65]
  obtain st' where w: "inode_write_at one_sector_inode True [65] 1 0 init_state = Inr (1, st')"
    by blast
  from write_denied [of one_sector_inode True "[65]" 1 0 init_state] w
  have c: "deny_write_cnt one_sector_inode = 0" by auto
  from a b w c show ?thesis by blast
qed

text \<open>
  What the allocation engine leaves alone: the sectors the allocator does not hold keep
  their content, and the registry and the heap are not touched.
\<close>

lemma allocate_zeroed_frame:
  assumes wf: "cache_wf st" and ne: "free_sectors st \<noteq> []"
  shows "cache_wf (snd (allocate_zeroed e st))"
    and "fst (allocate_zeroed e st) = free_sectors st ! 0"
    and "free_sectors (snd (allocate_zeroed e st)) = drop 1 (free_sectors st)"
    and "open_inodes (snd (allocate_zeroed e st)) = open_inodes st"
    and "heap_slots (snd (allocate_zeroed e st)) = heap_slots st"
    and "x \<notin> set (free_sectors st) \<Longrightarrow>
           cache_content (snd (allocate_zeroed e st)) x = cache_content st x"
proof -
  obtain e' st' where a: "allocate_zeroed e st = (e', st')" by (cases "allocate_zeroed e st")
  note c = allocate_zeroed_content [OF wf a]
  note o = allocate_zeroed_content_other [OF wf a]
  from c(1) a show "cache_wf (snd (allocate_zeroed e st))" by simp
  from c(3) [OF ne] ne a show e: "fst (allocate_zeroed e st) = free_sectors st ! 0"
    by (simp add: hd_conv_nth)
  from allocate_zeroed_free [of e st]
  show "free_sectors (snd (allocate_zeroed e st)) = drop 1 (free_sectors st)" .
  from ne show "open_inodes (snd (allocate_zeroed e st)) = open_inodes st"
    and "heap_slots (snd (allocate_zeroed e st)) = heap_slots st"
    by (cases "free_sectors st"; simp add: allocate_zeroed_def free_map_allocate_def write_frame)+
  assume x: "x \<notin> set (free_sectors st)"
  from ne have "free_sectors st ! 0 \<in> set (free_sectors st)" by simp
  with x e a have "x \<noteq> e'" by auto
  with o [of x] a show "cache_content (snd (allocate_zeroed e st)) x = cache_content st x" by simp
qed

lemma allocate_direct_frame:
  "cache_wf st \<Longrightarrow> l - i \<le> length (free_sectors st) \<Longrightarrow>
   open_inodes (snd (allocate_direct i l d st)) = open_inodes st \<and>
   heap_slots (snd (allocate_direct i l d st)) = heap_slots st \<and>
   (\<forall>x. x \<notin> set (free_sectors st) \<longrightarrow>
        cache_content (snd (allocate_direct i l d st)) x = cache_content st x)"
proof (induction i l d st rule: allocate_direct.induct)
  case (1 i l d st)
  note wf = "1.prems"(1) and fl = "1.prems"(2)
  show ?case
  proof (cases "i < l")
    case False
    then have e: "allocate_direct i l d st = (d, st)" by (subst allocate_direct.simps) simp
    show ?thesis unfolding e by simp
  next
    case True
    with fl have ne: "free_sectors st \<noteq> []" by auto
    obtain s st1 where a: "allocate_zeroed (direct_blocks d ! i) st = (s, st1)"
      by (cases "allocate_zeroed (direct_blocks d ! i) st")
    note f = allocate_zeroed_frame [OF wf ne, where e = "direct_blocks d ! i"]
    from f(1) a have wf1: "cache_wf st1" by simp
    from f(3) a have f1: "free_sectors st1 = drop 1 (free_sectors st)" by simp
    from f(4,5) a have o1: "open_inodes st1 = open_inodes st" "heap_slots st1 = heap_slots st"
      by simp_all
    from f1 fl True have fl1: "l - Suc i \<le> length (free_sectors st1)" by simp
    let ?d1 = "d\<lparr>direct_blocks := (direct_blocks d)[i := s]\<rparr>"
    let ?R = "allocate_direct (Suc i) l ?d1 st1"
    have e: "allocate_direct i l d st = ?R"
      using True a by (subst allocate_direct.simps) simp
    note ih = "1.IH" [OF True a [symmetric] refl wf1 fl1]
    have "\<forall>x. x \<notin> set (free_sectors st) \<longrightarrow> cache_content (snd ?R) x = cache_content st x"
    proof (intro allI impI)
      fix x assume x: "x \<notin> set (free_sectors st)"
      then have "x \<notin> set (free_sectors st1)" unfolding f1 by (auto dest: in_set_dropD)
      with ih have "cache_content (snd ?R) x = cache_content st1 x" by simp
      also from f(6) [OF x] a have "\<dots> = cache_content st x" by simp
      finally show "cache_content (snd ?R) x = cache_content st x" .
    qed
    with ih o1 show ?thesis unfolding e by simp
  qed
qed

lemma allocate_entries_frame:
  "(\<And>e k s. sub e k s = Inr (allocate_zeroed e s)) \<Longrightarrow> cache_wf st \<Longrightarrow>
   l \<le> INDIRECT_BLOCKS \<Longrightarrow> l - i \<le> length (free_sectors st) \<Longrightarrow>
   \<exists>blocks' st'. allocate_entries sub n i l nsectors blocks st = Inr (blocks', st') \<and>
     cache_wf st' \<and> free_sectors st' = drop (l - i) (free_sectors st) \<and>
     open_inodes st' = open_inodes st \<and> heap_slots st' = heap_slots st \<and>
     (\<forall>x. x \<notin> set (free_sectors st) \<longrightarrow> cache_content st' x = cache_content st x)"
proof (induction sub n i l nsectors blocks st rule: allocate_entries.induct)
  case (1 sub n i l nsectors blocks st)
  note sub = "1.prems"(1) and wf = "1.prems"(2) and lb = "1.prems"(3) and fl = "1.prems"(4)
  show ?case
  proof (cases "i < l")
    case False
    then have e: "allocate_entries sub n i l nsectors blocks st = Inr (blocks, st)"
      by (subst allocate_entries.simps) simp
    from False wf show ?thesis unfolding e by simp
  next
    case True
    with lb have ib: "i < INDIRECT_BLOCKS" by simp
    from True fl have ne: "free_sectors st \<noteq> []" by auto
    obtain b st1 where a: "allocate_zeroed (blocks ! i) st = (b, st1)"
      by (cases "allocate_zeroed (blocks ! i) st")
    then have s: "sub (blocks ! i) (min nsectors n) st = Inr (b, st1)" by (simp add: sub)
    note f = allocate_zeroed_frame [OF wf ne, where e = "blocks ! i"]
    from f(1) a have wf1: "cache_wf st1" by simp
    from f(3) a have f1: "free_sectors st1 = drop 1 (free_sectors st)" by simp
    from f(4,5) a have o1: "open_inodes st1 = open_inodes st" "heap_slots st1 = heap_slots st"
      by simp_all
    from f1 fl True have fl1: "l - Suc i \<le> length (free_sectors st1)" by simp
    from "1.IH" [OF True ib s refl sub wf1 lb fl1] obtain blocks' st' where
      r: "allocate_entries sub n (Suc i) l (nsectors - min nsectors n) (blocks[i := b]) st1
            = Inr (blocks', st')"
      and wfR: "cache_wf st'"
      and fR: "free_sectors st' = drop (l - Suc i) (free_sectors st1)"
      and oR: "open_inodes st' = open_inodes st1" "heap_slots st' = heap_slots st1"
      and cR: "\<forall>x. x \<notin> set (free_sectors st1) \<longrightarrow> cache_content st' x = cache_content st1 x"
      by (elim exE conjE)
    have e: "allocate_entries sub n i l nsectors blocks st = Inr (blocks', st')"
      using True ib s r by (subst allocate_entries.simps) simp
    from True have "Suc (l - Suc i) = l - i" by simp
    then have fr: "free_sectors st' = drop (l - i) (free_sectors st)"
      unfolding fR f1 by (simp only: drop_drop) simp
    have c: "\<forall>x. x \<notin> set (free_sectors st) \<longrightarrow> cache_content st' x = cache_content st x"
    proof (intro allI impI)
      fix x assume x: "x \<notin> set (free_sectors st)"
      then have "x \<notin> set (free_sectors st1)" unfolding f1 by (auto dest: in_set_dropD)
      with cR have "cache_content st' x = cache_content st1 x" by simp
      also from f(6) [OF x] a have "\<dots> = cache_content st x" by simp
      finally show "cache_content st' x = cache_content st x" .
    qed
    from e wfR fr oR o1 c show ?thesis by simp
  qed
qed

lemma inode_allocate_indirect_1_frame:
  assumes wf: "cache_wf st" and l: "l \<le> INDIRECT_BLOCKS"
    and fl: "l + (if e = 0 then 1 else 0) \<le> length (free_sectors st)"
  shows "\<exists>st'. inode_allocate_indirect e l 1 st = Inr (if e = 0 then free_sectors st ! 0 else e, st') \<and>
           cache_wf st' \<and>
           free_sectors st' = drop (l + (if e = 0 then 1 else 0)) (free_sectors st) \<and>
           open_inodes st' = open_inodes st \<and> heap_slots st' = heap_slots st \<and>
           (\<forall>x. x \<notin> set (free_sectors st) \<and> (e \<noteq> 0 \<longrightarrow> x \<noteq> e) \<longrightarrow>
                cache_content st' x = cache_content st x)"
proof -
  let ?e1 = "if e = 0 then free_sectors st ! 0 else e"
  let ?k = "if e = 0 then 1 else 0 :: nat"
  obtain e1 st1 where a: "(if e = 0 then allocate_zeroed e st else (e, st)) = (e1, st1)"
    by (cases "if e = 0 then allocate_zeroed e st else (e, st)")
  have p1: "cache_wf st1 \<and> e1 = ?e1 \<and> free_sectors st1 = drop ?k (free_sectors st) \<and>
      open_inodes st1 = open_inodes st \<and> heap_slots st1 = heap_slots st \<and>
      (\<forall>x. x \<notin> set (free_sectors st) \<longrightarrow> cache_content st1 x = cache_content st x)"
  proof (cases "e = 0")
    case False
    with a wf show ?thesis by simp
  next
    case True
    with fl have ne: "free_sectors st \<noteq> []" by auto
    note f = allocate_zeroed_frame [OF wf ne, where e = e]
    from True a have st1: "st1 = snd (allocate_zeroed e st)" "e1 = fst (allocate_zeroed e st)"
      by simp_all
    from f True show ?thesis unfolding st1 by simp
  qed
  then have wf1: "cache_wf st1" and e1: "e1 = ?e1"
    and f1: "free_sectors st1 = drop ?k (free_sectors st)"
    and o1: "open_inodes st1 = open_inodes st" "heap_slots st1 = heap_slots st"
    and c1: "\<forall>x. x \<notin> set (free_sectors st) \<longrightarrow> cache_content st1 x = cache_content st x"
    by simp_all
  obtain buf st2 where r: "fs_cache_read e1 st1 = (buf, st2)" by (cases "fs_cache_read e1 st1")
  note rp = fs_cache_read_props [OF wf1 r]
  from r have f2: "free_sectors st2 = free_sectors st1" "open_inodes st2 = open_inodes st1"
    "heap_slots st2 = heap_slots st1"
    using read_frame [of e1 st1] by simp_all
  from fl f1 f2 have fl2: "l - 0 \<le> length (free_sectors st2)" by (simp split: if_splits)
  from allocate_entries_frame [of "\<lambda>e k s. inode_allocate_indirect e k 0 s" st2 l 0 1 l
      "indirect_block_of_sector buf", OF _ rp(2) l fl2]
  obtain blocks st3 where
    al: "allocate_entries (\<lambda>e k s. inode_allocate_indirect e k 0 s) 1 0 l l
           (indirect_block_of_sector buf) st2 = Inr (blocks, st3)"
    and wf3: "cache_wf st3"
    and f3: "free_sectors st3 = drop (l - 0) (free_sectors st2)"
    and o3: "open_inodes st3 = open_inodes st2" "heap_slots st3 = heap_slots st2"
    and c3: "\<forall>x. x \<notin> set (free_sectors st2) \<longrightarrow> cache_content st3 x = cache_content st2 x"
    by auto
  let ?st' = "fs_cache_write e1 (bytes_of_words blocks) st3"
  note wp = fs_cache_write_props [OF wf3, of e1 "bytes_of_words blocks"]
  have run: "inode_allocate_indirect e l (Suc 0) st = Inr (e1, ?st')"
    using a r al
    by (simp del: inode_allocate_indirect.simps(1) add: Let_def DIV_ROUND_UP_def)
  have fr: "free_sectors ?st' = drop (l + ?k) (free_sectors st)"
    using f1 f2 f3 by (simp add: write_frame add.commute)
  have op: "open_inodes ?st' = open_inodes st" "heap_slots ?st' = heap_slots st"
    using o1 f2 o3 by (simp_all add: write_frame)
  have c: "\<forall>x. x \<notin> set (free_sectors st) \<and> (e \<noteq> 0 \<longrightarrow> x \<noteq> e) \<longrightarrow>
      cache_content ?st' x = cache_content st x"
  proof (intro allI impI)
    fix x assume x: "x \<notin> set (free_sectors st) \<and> (e \<noteq> 0 \<longrightarrow> x \<noteq> e)"
    have "x \<noteq> e1"
    proof (cases "e = 0")
      case True
      with fl have "0 < length (free_sectors st)" by (cases "free_sectors st") simp_all
      then have "free_sectors st ! 0 \<in> set (free_sectors st)" by (rule nth_mem)
      with x e1 True show ?thesis by auto
    next
      case False
      with x e1 show ?thesis by simp
    qed
    with wp(2) [of x] have "cache_content ?st' x = cache_content st3 x" by simp
    also have "\<dots> = cache_content st2 x"
    proof -
      from x have "x \<notin> set (free_sectors st2)" unfolding f2 f1 by (auto dest: in_set_dropD)
      with c3 show ?thesis by simp
    qed
    also have "\<dots> = cache_content st1 x" by (rule rp(3))
    also from c1 x have "\<dots> = cache_content st x" by simp
    finally show "cache_content ?st' x = cache_content st x" .
  qed
  from run wp(1) fr op c show ?thesis unfolding e1 by (simp del: inode_allocate_indirect.simps)
qed

text \<open>
  An allocation of 253 sectors, from an allocator that holds enough sectors and does
  not hand out sector 0 for the indirect block: it succeeds, takes 254 sectors,
  leaves \<^verbatim>\<open>double_indirect_block\<close> as it was, and changes no sector the allocator did
  not hold.
\<close>

lemma inode_allocate_253_frame:
  assumes wf: "cache_wf st" and neg: "\<not> length' d <s 0"
    and n: "bytes_to_sectors (length' d) = 253"
    and db: "length (direct_blocks d) = DIRECT_BLOCKS" and ib: "indirect_block d = 0"
    and fl: "254 \<le> length (free_sectors st)" and nz: "free_sectors st ! 124 \<noteq> 0"
  shows "\<exists>d' st'. inode_allocate d st = Inr (True, d', st') \<and> cache_wf st' \<and>
           double_indirect_block d' = double_indirect_block d \<and> length' d' = length' d \<and>
           length (direct_blocks d') = DIRECT_BLOCKS \<and>
           free_sectors st' = drop 254 (free_sectors st) \<and>
           open_inodes st' = open_inodes st \<and> heap_slots st' = heap_slots st \<and>
           (\<forall>x. x \<notin> set (free_sectors st) \<longrightarrow> cache_content st' x = cache_content st x)"
proof -
  let ?fs = "free_sectors st"
  let ?R = "allocate_direct 0 124 d st"
  let ?d1 = "fst ?R" and ?st1 = "snd ?R"
  from allocate_direct_props [of 0 124 d st] ib
  have p1: "free_sectors ?st1 = drop 124 ?fs" "indirect_block ?d1 = 0"
    "double_indirect_block ?d1 = double_indirect_block d" "length' ?d1 = length' d"
    by simp_all
  from db have l: "124 \<le> length (direct_blocks d)" by (simp add: DIRECT_BLOCKS_def)
  note z = allocate_direct_zero [OF wf l, of 0]
  from z have wf1: "cache_wf ?st1" by simp
  from z db have db1: "length (direct_blocks ?d1) = DIRECT_BLOCKS" by simp
  from fl have fl0: "124 - 0 \<le> length ?fs" by simp
  note f1 = allocate_direct_frame [OF wf fl0, of d]
  from f1 have o1: "open_inodes ?st1 = open_inodes st" "heap_slots ?st1 = heap_slots st"
    and c1: "\<forall>x. x \<notin> set ?fs \<longrightarrow> cache_content ?st1 x = cache_content st x"
    by simp_all
  have l2: "128 \<le> INDIRECT_BLOCKS" by (simp add: INDIRECT_BLOCKS_def)
  from fl p1(1) have fl2: "128 + (if (0 :: block_sector_t) = 0 then 1 else 0) \<le> length (free_sectors ?st1)"
    by simp
  from fl have h124: "free_sectors ?st1 ! 0 = ?fs ! 124" unfolding p1(1) by simp
  from inode_allocate_indirect_1_frame [OF wf1 l2 fl2] obtain st2 where
    a2: "inode_allocate_indirect 0 128 1 ?st1 = Inr (?fs ! 124, st2)"
    and wf2: "cache_wf st2"
    and f2: "free_sectors st2 = drop 129 (free_sectors ?st1)"
    and o2: "open_inodes st2 = open_inodes ?st1" "heap_slots st2 = heap_slots ?st1"
    and c2: "\<forall>x. x \<notin> set (free_sectors ?st1) \<longrightarrow> cache_content st2 x = cache_content ?st1 x"
    unfolding h124 by auto
  let ?e2 = "?fs ! 124"
  have l3: "1 \<le> INDIRECT_BLOCKS" by (simp add: INDIRECT_BLOCKS_def)
  from fl p1(1) f2 nz have fl3: "1 + (if ?e2 = 0 then 1 else 0) \<le> length (free_sectors st2)"
    by simp
  from inode_allocate_indirect_1_frame [OF wf2 l3 fl3] nz obtain st3 where
    a3: "inode_allocate_indirect ?e2 1 1 st2 = Inr (?e2, st3)"
    and wf3: "cache_wf st3"
    and f3: "free_sectors st3 = drop 1 (free_sectors st2)"
    and o3: "open_inodes st3 = open_inodes st2" "heap_slots st3 = heap_slots st2"
    and c3: "\<forall>x. x \<notin> set (free_sectors st2) \<and> x \<noteq> ?e2 \<longrightarrow> cache_content st3 x = cache_content st2 x"
    by auto
  let ?d' = "?d1\<lparr>indirect_block := ?e2\<rparr>"
  have run: "inode_allocate d st = Inr (True, ?d', st3)"
    using neg n a2 a3 p1(2)
    by (simp add: inode_allocate_def Let_def split_beta DIRECT_BLOCKS_def INDIRECT_BLOCKS_def
        DOUBLE_INDIRECT_BLOCKS_def del: inode_allocate_indirect.simps)
  have fr: "free_sectors st3 = drop 254 ?fs" unfolding f3 f2 p1(1) by (simp only: drop_drop) simp
  have c: "\<forall>x. x \<notin> set ?fs \<longrightarrow> cache_content st3 x = cache_content st x"
  proof (intro allI impI)
    fix x assume x: "x \<notin> set ?fs"
    from fl have "124 < length ?fs" by simp
    then have "?e2 \<in> set ?fs" by (rule nth_mem)
    with x have ne: "x \<noteq> ?e2" by auto
    from x have x1: "x \<notin> set (free_sectors ?st1)" unfolding p1(1) by (auto dest: in_set_dropD)
    then have x2: "x \<notin> set (free_sectors st2)" unfolding f2 by (auto dest: in_set_dropD)
    from c3 x2 ne have "cache_content st3 x = cache_content st2 x" by simp
    also from c2 x1 have "\<dots> = cache_content ?st1 x" by simp
    also from c1 x have "\<dots> = cache_content st x" by simp
    finally show "cache_content st3 x = cache_content st x" .
  qed
  from run wf3 p1(3,4) db1 fr o1 o2 o3 c show ?thesis by simp
qed

lemma inode_create_253:
  assumes wf: "cache_wf st" and len: "0 \<le>s len" and n: "bytes_to_sectors len = 253"
    and fl: "254 \<le> length (free_sectors st)" and nz: "free_sectors st ! 124 \<noteq> 0"
  shows "\<exists>st' d'. inode_create True sec len st = Inr (True, st') \<and> cache_wf st' \<and>
           cache_content st' sec = sector_of_inode_disk d' \<and>
           length' d' = len \<and> double_indirect_block d' = 0 \<and>
           length (direct_blocks d') = DIRECT_BLOCKS \<and>
           free_sectors st' = drop 254 (free_sectors st) \<and>
           open_inodes st' = open_inodes st \<and> heap_slots st' = heap_slots st \<and>
           (\<forall>x. x \<notin> set (free_sectors st) \<and> x \<noteq> sec \<longrightarrow>
                cache_content st' x = cache_content st x)"
proof -
  let ?d = "calloc_inode_disk\<lparr>length' := len, magic := INODE_MAGIC\<rparr>"
  from len have neg: "\<not> length' ?d <s 0" by (simp add: word_sless_alt word_sle_eq)
  have n': "bytes_to_sectors (length' ?d) = 253" using n by simp
  have db: "length (direct_blocks ?d) = DIRECT_BLOCKS" and ib: "indirect_block ?d = 0"
    and di: "double_indirect_block ?d = 0"
    by (simp_all add: calloc_inode_disk_def)
  from inode_allocate_253_frame [OF wf neg n' db ib fl nz] di obtain d' st1 where
    a: "inode_allocate ?d st = Inr (True, d', st1)" and wf1: "cache_wf st1"
    and p: "double_indirect_block d' = 0" "length' d' = len"
      "length (direct_blocks d') = DIRECT_BLOCKS"
    and fr: "free_sectors st1 = drop 254 (free_sectors st)"
    and o: "open_inodes st1 = open_inodes st" "heap_slots st1 = heap_slots st"
    and c: "\<forall>x. x \<notin> set (free_sectors st) \<longrightarrow> cache_content st1 x = cache_content st x"
    by auto
  let ?st' = "fs_cache_write sec (sector_of_inode_disk d') st1"
  note wp = fs_cache_write_props [OF wf1, of sec "sector_of_inode_disk d'"]
  have run: "inode_create True sec len st = Inr (True, ?st')"
    using a len by (simp add: inode_create_def)
  have "length (sector_of_inode_disk d') = BLOCK_SECTOR_SIZE"
    using p(3)
    by (simp add: sector_of_inode_disk_def length_bytes_of_words DIRECT_BLOCKS_def BLOCK_SECTOR_SIZE_def)
  with wp(2) [of sec] have cs: "cache_content ?st' sec = sector_of_inode_disk d'" by simp
  have c': "\<forall>x. x \<notin> set (free_sectors st) \<and> x \<noteq> sec \<longrightarrow> cache_content ?st' x = cache_content st x"
    using wp(2) c by simp
  have "free_sectors ?st' = drop 254 (free_sectors st)" "open_inodes ?st' = open_inodes st"
    "heap_slots ?st' = heap_slots st"
    using fr o by (simp_all add: write_frame)
  with run wp(1) cs p c' show ?thesis by blast
qed

lemma stale_state_fields:
  "open_inodes stale_state = []" "heap_slots stale_state = 16"
  "free_sectors stale_state = map of_nat [2..<300]"
  "fs_device stale_state = (\<lambda>_. stale_sector)"
  by (simp_all add: stale_state_def fs_cache_init_def inode_init_def)

lemma stale_state_wf: "cache_wf stale_state"
  by (simp add: cache_wf_def stale_state_def fs_cache_init_def inode_init_def static_cache_def
      CACHE_SIZE_def)

lemma stale_state_content: "cache_content stale_state x = stale_sector"
proof -
  have "length (cache stale_state) = CACHE_SIZE"
    by (simp add: stale_state_def fs_cache_init_def inode_init_def static_cache_def)
  moreover have "\<forall>i<CACHE_SIZE. free (cache stale_state ! i) \<or> sector (cache stale_state ! i) \<noteq> x"
    by (simp add: stale_state_def fs_cache_init_def inode_init_def static_cache_def)
  ultimately have "cache_content stale_state x = fs_device stale_state x"
    by (rule cache_content_miss)
  then show ?thesis by (simp add: stale_state_fields)
qed

lemma sector_range_mem:
  assumes "x \<in> set (map (of_nat :: nat \<Rightarrow> block_sector_t) [m..<n])" and "n \<le> 2 ^ 32"
  shows "m \<le> unat x \<and> unat x < n"
proof -
  from assms(1) obtain k where k: "m \<le> k" "k < n" "x = of_nat k" by auto
  with assms(2) have "unat x = k" by (simp add: unat_of_nat)
  with k show ?thesis by simp
qed

lemma stale_entry: "indirect_block_of_sector stale_sector ! 0 = 0xAAAAAAAA"
proof -
  have "stale_sector = replicate 4 0xAA @ replicate 508 0xAA"
    by (simp add: stale_sector_def BLOCK_SECTOR_SIZE_def replicate_add [symmetric])
  moreover have "replicate 4 (0xAA :: uint8_t) = [0xAA, 0xAA, 0xAA, 0xAA]"
    by (simp add: numeral_eq_Suc)
  ultimately have e: "stale_sector = 0xAA # 0xAA # 0xAA # 0xAA # replicate 508 0xAA" by simp
  show ?thesis
    unfolding indirect_block_of_sector_def
    by (subst e) (simp add: INDIRECT_BLOCKS_def bytes_to_word_def)
qed

text \<open>
  Reading the first byte of block 252 of a file of 129025 bytes whose
  \<^verbatim>\<open>double_indirect_block\<close> is zero, when sector 0 and the sector its first entry names
  hold the stale bytes.
\<close>

lemma read_block_252:
  assumes wf: "cache_wf st" and len: "length' (data' inode) = 129025"
    and di: "double_indirect_block (data' inode) = 0"
    and c0: "cache_content st 0 = stale_sector"
    and c1: "cache_content st 0xAAAAAAAA = stale_sector"
  shows "\<exists>st1 st'. byte_to_sector inode 129024 st = Inr (0xAAAAAAAA, st1) \<and>
           inode_read_at inode True [b0] 1 129024 st = Inr ((1, [0xAA]), st')"
proof -
  obtain blk st1 where r1: "fs_cache_read 0 st = (blk, st1)" by (cases "fs_cache_read 0 st")
  note p1 = fs_cache_read_props [OF wf r1]
  from p1(1) c0 have blk: "blk = stale_sector" by simp
  obtain blk2 st2 where r2: "fs_cache_read 0xAAAAAAAA st1 = (blk2, st2)"
    by (cases "fs_cache_read 0xAAAAAAAA st1")
  note p2 = fs_cache_read_props [OF p1(2) r2]
  from p2(1) p1(3) [of "0xAAAAAAAA"] c1 have blk2: "blk2 = stale_sector" by simp
  have ix: "index_to_sector (data' inode) 252 st = Inr (0xAAAAAAAA, st2)"
    using index_to_sector_translate [of 252 "data' inode" st] di r1 r2 blk blk2
    by (simp add: translate_spec_def stale_entry)
  have bts: "byte_to_sector inode 129024 st = Inr (0xAAAAAAAA, st2)"
    using ix len by (simp add: byte_to_sector_def c_div_def word_sless_alt word_sle_eq)
  obtain bounce st3 where r3: "fs_cache_read 0xAAAAAAAA st2 = (bounce, st3)"
    by (cases "fs_cache_read 0xAAAAAAAA st2")
  note p3 = fs_cache_read_props [OF p2(2) r3]
  from p3(1) p2(3) [of "0xAAAAAAAA"] p1(3) [of "0xAAAAAAAA"] c1
  have bounce: "bounce = stale_sector" by simp
  have tk: "take (Suc 0) stale_sector = [0xAA]"
    by (simp add: stale_sector_def BLOCK_SECTOR_SIZE_def take_Suc_conv_app_nth)
  have cp: "copy_into [b0] 0 (take (Suc 0) stale_sector) = [0xAA]"
    unfolding tk by (simp add: copy_into_def)
  have stop: "inode_read_loop inode True [0xAA] 0 129025 1 st3 = Inr ((1, [0xAA]), st3)"
    by (subst inode_read_loop.simps) (simp add: word_sless_alt)
  have "inode_read_loop inode True [b0] 1 129024 0 st = Inr ((1, [0xAA]), st3)"
    using stop r3 bounce cp
    by (subst inode_read_loop.simps)
       (simp add: bts inode_length_def len c_mod_def word_sless_alt word_sle_eq Let_def)
  with bts show ?thesis by (auto simp: inode_read_at_def)
qed

text \<open>
  \<^verbatim>\<open>bytes_to_sectors\<close> rounds up: for a size that is not negative (and below the
  largest \<^verbatim>\<open>off_t\<close> by a sector, so that the sum does not wrap) it is
  \<open>\<lceil>size / 512\<rceil>\<close>, the least number of sectors that hold \<open>size\<close> bytes.
\<close>

lemma bytes_to_sectors_round_up:
  assumes "0 \<le> sint sz" and "sint sz \<le> 2 ^ 31 - 512"
  shows "int (bytes_to_sectors sz) = (sint sz + 511) div 512"
    and "sint sz \<le> 512 * int (bytes_to_sectors sz)"
    and "512 * int (bytes_to_sectors sz) < sint sz + 512"
proof -
  have e0: "sz + 512 - 1 = sz + 511" by simp
  have "(word_of_int (sint sz + 511) :: 32 word) = sz + 511" by simp
  moreover have "sint (word_of_int (sint sz + 511) :: 32 word) = sint sz + 511"
    using assms by (intro sint_word_of_int_32) simp_all
  ultimately have s: "sint (sz + 511) = sint sz + 511" by (simp only:)
  have q: "0 \<le> (sint sz + 511) div 512" "(sint sz + 511) div 512 < 2 ^ 32"
    using assms by simp_all
  have "c_div (sz + 511) 512 = word_of_int ((sint sz + 511) div 512)"
    using assms by (subst c_div_nonneg) (simp_all only: s, simp_all)
  then have "bytes_to_sectors sz = nat ((sint sz + 511) div 512)"
    unfolding bytes_to_sectors_def e0 using q by (simp only: unat_word_of_int_32)
  with q show e: "int (bytes_to_sectors sz) = (sint sz + 511) div 512" by simp
  have m: "512 * ((sint sz + 511) div 512) + (sint sz + 511) mod 512 = sint sz + 511"
    by (rule mult_div_mod_eq)
  have r: "0 \<le> (sint sz + 511) mod 512" "(sint sz + 511) mod 512 < 512" by simp_all
  from m r show "sint sz \<le> 512 * int (bytes_to_sectors sz)" unfolding e by linarith
  from m r show "512 * int (bytes_to_sectors sz) < sint sz + 512" unfolding e by linarith
qed

lemma bytes_to_sectors_129025: "bytes_to_sectors 129025 = 253"
  by (simp add: bytes_to_sectors_def c_div_def)

text \<open>
  Claim C7, at a failing input. On a device whose sectors hold the byte \<open>0xAA\<close>,
  \<^verbatim>\<open>inode_create (1, 129025)\<close> (a file of 253 sectors, the last of one byte) succeeds
  and takes 254 sectors from the allocator; \<^verbatim>\<open>inode_open (1)\<close> returns a handle of
  that length; and nothing has been written to the file, yet \<^verbatim>\<open>byte_to_sector\<close> maps
  its byte 129024 (the first of block 252) to sector \<open>0xAAAAAAAA\<close>, which the allocator
  never handed out, and \<^verbatim>\<open>inode_read_at\<close> of that byte returns \<open>0xAA\<close>, not zero. The
  third step of \<^verbatim>\<open>inode_allocate\<close> has put the block under \<^verbatim>\<open>indirect_block\<close>, where
  \<^verbatim>\<open>index_to_sector\<close> does not look for it.
\<close>

theorem fresh_file_reads_stale_bytes:
  "\<exists>st1 p st2 inode st2' st3.
     inode_create True 1 129025 stale_state = Inr (True, st1) \<and>
     free_sectors st1 = map of_nat [256..<300] \<and>
     inode_open 1 st1 = Inr (Some p, st2) \<and>
     map_of (open_inodes st2) p = Some inode \<and>
     inode_length inode = 129025 \<and>
     byte_to_sector inode 129024 st2 = Inr (0xAAAAAAAA, st2') \<and>
     0xAAAAAAAA \<notin> set (free_sectors stale_state) \<and>
     inode_read_at inode True [0] 1 129024 st2 = Inr ((1, [0xAA]), st3)"
proof -
  let ?fs = "free_sectors stale_state"
  have len: "(0 :: off_t) \<le>s 129025" by (simp add: word_sle_eq)
  have fl: "254 \<le> length ?fs" by (simp add: stale_state_fields)
  have nz: "?fs ! 124 \<noteq> 0" by (simp add: stale_state_fields)
  have m0: "0 \<notin> set ?fs" and ma: "0xAAAAAAAA \<notin> set ?fs"
    using sector_range_mem [of 0 2 300] sector_range_mem [of "0xAAAAAAAA" 2 300]
    by (auto simp: stale_state_fields)
  from inode_create_253 [OF stale_state_wf len bytes_to_sectors_129025 fl nz, of 1]
  obtain st1 d' where
    c: "inode_create True 1 129025 stale_state = Inr (True, st1)" and wf1: "cache_wf st1"
    and cs: "cache_content st1 1 = sector_of_inode_disk d'"
    and d: "length' d' = 129025" "double_indirect_block d' = 0"
      "length (direct_blocks d') = DIRECT_BLOCKS"
    and fr: "free_sectors st1 = drop 254 ?fs"
    and o: "open_inodes st1 = open_inodes stale_state" "heap_slots st1 = heap_slots stale_state"
    and fc: "\<forall>x. x \<notin> set ?fs \<and> x \<noteq> 1 \<longrightarrow> cache_content st1 x = cache_content stale_state x"
    by (elim exE conjE)
  have fr': "free_sectors st1 = map of_nat [256..<300]"
    unfolding fr by (simp add: stale_state_fields drop_map)
  have none: "find_open (open_inodes st1) 1 = None" and heap: "0 < heap_slots st1"
    using o by (simp_all add: stale_state_fields)
  let ?ino = "\<lparr>sector' = 1, open_cnt = 1, removed = False, deny_write_cnt = 0,
               data' = inode_disk_of_sector (cache_content st1 1)\<rparr>"
  from inode_open_fresh [OF wf1 none heap] obtain p st2 where
    op: "inode_open 1 st1 = Inr (Some p, st2)" and mo: "map_of (open_inodes st2) p = Some ?ino"
    and wf2: "cache_wf st2" and c2: "\<And>x. cache_content st2 x = cache_content st1 x"
    by blast
  have "length (sector_of_inode_disk d') = BLOCK_SECTOR_SIZE"
    using d(3)
    by (simp add: sector_of_inode_disk_def length_bytes_of_words DIRECT_BLOCKS_def BLOCK_SECTOR_SIZE_def)
  then have "inode_disk_of_sector (sector_of_inode_disk d') = d'"
    using inode_disk_roundtrip [OF d(3)] by simp
  then have dd: "data' ?ino = d'" using cs by simp
  have il: "length' (data' ?ino) = 129025" and di: "double_indirect_block (data' ?ino) = 0"
    unfolding dd by (rule d)+
  have c0: "cache_content st2 0 = stale_sector"
    using c2 [of 0] fc m0 by (simp add: stale_state_content)
  have ca: "cache_content st2 0xAAAAAAAA = stale_sector"
    using c2 [of "0xAAAAAAAA"] fc ma by (simp add: stale_state_content)
  from read_block_252 [OF wf2 il di c0 ca, of 0] obtain st2' st3 where
    b: "byte_to_sector ?ino 129024 st2 = Inr (0xAAAAAAAA, st2')"
    and r: "inode_read_at ?ino True [0] 1 129024 st2 = Inr ((1, [0xAA]), st3)"
    by blast
  have ln: "inode_length ?ino = 129025" using il by (simp add: inode_length_def)
  from c fr' op mo ln b ma r show ?thesis by blast
qed

end
